theory Spec2Isabelle
  imports Complex_Main "HOL-Library.While_Combinator"
begin

section \<open>The thrust tester firmware (auto\_thrust\_tester.ino)\<close>

text \<open>
  A shallow embedding of the sketch \<^verbatim>\<open>auto_thrust_tester.ino\<close>. C strings are
  \<^typ>\<open>string\<close> (the characters before the terminating NUL), the globals of the sketch are
  the fields of one record that every function takes and returns, and what the sketch reads
  from the hardware (button, load cell, card) is a record of inputs.
\<close>

subsection \<open>File names: libc helpers\<close>

text \<open>\<^verbatim>\<open>isdigit\<close> of the C library, on the characters \<^verbatim>\<open>'0'\<close> to \<^verbatim>\<open>'9'\<close>.\<close>

definition isdigit :: "char \<Rightarrow> bool" where
  "isdigit c = (c \<in> set ''0123456789'')"

text \<open>\<^verbatim>\<open>isspace\<close>: space, and the control characters 9 to 13.\<close>

definition isspace :: "char \<Rightarrow> bool" where
  "isspace c = (c \<in> set [CHR '' '', CHR 0x09, CHR 0x0A, CHR 0x0B, CHR 0x0C, CHR 0x0D])"

text \<open>The value \<^verbatim>\<open>c - '0'\<close> of a digit character.\<close>

definition digit_val :: "char \<Rightarrow> int" where
  "digit_val c = int (of_char c) - 48"

text \<open>
  \<^verbatim>\<open>atoi\<close>: skips white space, reads an optional sign and then the decimal digits up to the
  first character that is not one. The result is an unbounded \<^typ>\<open>int\<close>: the sketch calls
  \<^verbatim>\<open>atoi\<close> on at most four digits, which fit the 16-bit \<^verbatim>\<open>int\<close> of the smallest target.
\<close>

fun atoi_digits :: "int \<Rightarrow> string \<Rightarrow> int" where
  "atoi_digits acc [] = acc"
| "atoi_digits acc (c # cs) =
     (if isdigit c then atoi_digits (acc * 10 + digit_val c) cs else acc)"

definition atoi :: "string \<Rightarrow> int" where
  "atoi str =
     (case dropWhile isspace str of
        [] \<Rightarrow> 0
      | c # cs \<Rightarrow>
          if c = CHR ''-'' then - atoi_digits 0 cs
          else if c = CHR ''+'' then atoi_digits 0 cs
          else atoi_digits 0 (c # cs))"

text \<open>
  \<^verbatim>\<open>strstr haystack needle\<close>: the index of the first occurrence of the needle,
  \<open>None\<close> for the NULL pointer.
\<close>

fun strstr :: "string \<Rightarrow> string \<Rightarrow> nat option" where
  "strstr [] needle = (if needle = [] then Some 0 else None)"
| "strstr (c # cs) needle =
     (if take (length needle) (c # cs) = needle then Some 0
      else map_option Suc (strstr cs needle))"

text \<open>The conversion \<^verbatim>\<open>%d\<close> of \<^verbatim>\<open>snprintf\<close>: decimal digits, a minus sign first when negative.\<close>

definition digit_char :: "nat \<Rightarrow> char" where
  "digit_char d = ''0123456789'' ! d"

function dec_nat :: "nat \<Rightarrow> string" where
  "dec_nat n = (if n < 10 then [digit_char n] else dec_nat (n div 10) @ [digit_char (n mod 10)])"
  by pat_completeness auto
termination
  by (relation "measure id") auto

declare dec_nat.simps [simp del]

definition fmt_d :: "int \<Rightarrow> string" where
  "fmt_d i = (if i < 0 then CHR ''-'' # dec_nat (nat (- i)) else dec_nat (nat i))"

text \<open>
  \<^verbatim>\<open>snprintf(newFileName, 10, "t_%d.csv", nextFileNum)\<close>: at most nine characters are
  stored before the NUL.
\<close>

definition snprintf_name :: "int \<Rightarrow> string" where
  "snprintf_name nextFileNum = take 9 (''t_'' @ fmt_d nextFileNum @ ''.csv'')"

subsection \<open>File names: \<^verbatim>\<open>isMatchingFormat\<close> and \<^verbatim>\<open>getFileNum\<close>\<close>

text \<open>
  \<^verbatim>\<open>isMatchingFormat\<close>: the length test, the two \<^verbatim>\<open>strncmp\<close> tests and the loop
  \<^verbatim>\<open>for (i = 2; i < nameLength - 4; i++)\<close> over the characters in between.
\<close>

definition isMatchingFormat :: "string \<Rightarrow> bool" where
  "isMatchingFormat fileName =
     (let nameLength = length fileName in
      if nameLength < 7 \<or> nameLength > 10 then False
      else if take 2 fileName \<noteq> ''t_'' \<or> drop (nameLength - 4) fileName \<noteq> ''.csv'' then False
      else list_all (\<lambda>i. isdigit (fileName ! i)) [2 ..< nameLength - 4])"

text \<open>
  \<^verbatim>\<open>getFileNum\<close>: \<^verbatim>\<open>numStart\<close> is index 2, \<^verbatim>\<open>numEnd\<close> the first occurrence of
  \<^verbatim>\<open>".csv"\<close>; the characters from \<^verbatim>\<open>numStart\<close> up to \<^verbatim>\<open>numEnd\<close> are copied and given to
  \<^verbatim>\<open>atoi\<close>. With no occurrence \<^verbatim>\<open>numEnd\<close> is NULL, the test \<^verbatim>\<open>numStart < numEnd\<close> fails and
  the result is 0. (The copy goes to a buffer of 10 characters; the sketch only calls the
  function on names that passed \<^verbatim>\<open>isMatchingFormat\<close>, whose digit span is at most four.)
\<close>

definition getFileNum :: "string \<Rightarrow> int" where
  "getFileNum fileName =
     (case strstr fileName ''.csv'' of
        None \<Rightarrow> 0
      | Some numEnd \<Rightarrow>
          if 2 < numEnd then atoi (take (numEnd - 2) (drop 2 fileName)) else 0)"

subsection \<open>Globals and hardware\<close>

text \<open>The two levels of the button pin, which is wired active-low (\<^verbatim>\<open>INPUT_PULLUP\<close>).\<close>

datatype level = LOW | HIGH

text \<open>
  A line of the log file: the header \<^verbatim>\<open>millis,servo_pos,force\<close> printed by
  \<^verbatim>\<open>writeHeader\<close>, or a data line \<^verbatim>\<open>time,pos,force\<close> printed by \<^verbatim>\<open>writeData\<close>, kept as
  its three fields before \<^verbatim>\<open>String(...)\<close> turns them into text.
\<close>

datatype csvline = Header | Data int int real

text \<open>
  What the sketch is given: the two compile-time switches it tests with \<^verbatim>\<open>#ifdef\<close>, and
  the answers of the hardware. The \<open>k\<close>-th call of \<^verbatim>\<open>digitalRead(BUTTON_PIN)\<close> returns
  \<open>digitalRead e k\<close>, the \<open>k\<close>-th call of \<^verbatim>\<open>scale.get_units\<close> returns \<open>get_units e k\<close>
  (a \<^verbatim>\<open>float\<close> in the sketch, a real number here: rounding is not modelled), the
  \<open>k\<close>-th \<^verbatim>\<open>file.open\<close> of a log file succeeds when \<open>fileOpen e k\<close>, and the \<open>k\<close>-th
  test \<^verbatim>\<open>!file.sync() || file.getWriteError()\<close> finds no error when \<open>fileSync e k\<close>.
  \<open>dirEntries\<close> lists the root directory in the order of \<^verbatim>\<open>openNext\<close>: for each entry the
  name that \<^verbatim>\<open>getName\<close> leaves in the buffer \<^verbatim>\<open>fileName\<close>, and \<^verbatim>\<open>isDir()\<close>.
\<close>

record env =
  AUTO_TEST :: bool
  CONT_SYNC :: bool
  digitalRead :: "nat \<Rightarrow> level"
  get_units :: "nat \<Rightarrow> real"
  sdBegin :: bool
  dirOpen :: bool
  dirEntries :: "(string \<times> bool) list"
  fileOpen :: "nat \<Rightarrow> bool"
  fileSync :: "nat \<Rightarrow> bool"

text \<open>
  The global variables of the sketch, under their names, followed by the state of the
  devices: \<open>clock\<close> is the time in milliseconds that \<^verbatim>\<open>delay\<close> has consumed since power-on
  (the time taken by the other statements is not counted), \<open>buttonReads\<close>, \<open>scaleReads\<close>,
  \<open>fileOpens\<close> and \<open>fileSyncs\<close> count the calls answered by the \<^typ>\<open>env\<close>, \<open>fileIsOpen\<close>
  and \<open>sdFile\<close> are the log file and the lines printed to it so far, \<open>servoWritten\<close> is the
  last argument of \<^verbatim>\<open>myServo.write\<close>. The last two fields are counters that no statement of
  the sketch reads: \<open>dirScans\<close> counts the crawls of the directory, \<open>probeRuns\<close> the calls
  of \<^verbatim>\<open>checkServo\<close>. The display is written and never read, so \<^verbatim>\<open>printLcd\<close> changes none
  of these fields and is left out; the waits between the texts are kept.

  The \<^verbatim>\<open>int\<close> of the boards the sketch is written for (the AVR ones) has 16 bits.
  \<^verbatim>\<open>servoPos\<close> is the one \<^verbatim>\<open>int\<close> that a run can carry to the limit, since no statement
  takes it back to 0 when a test is cancelled: every sum that is stored in it is wrapped
  by \<open>int16\<close>, as the two's complement addition of the processor does. \<^verbatim>\<open>servoStep\<close> only
  holds 2, 0 and \<open>- 2\<close>, and \<^verbatim>\<open>maxFileNum\<close> stays at most 10000 (four digits from the
  crawl and 1 added, at most 1000 afterwards), so their arithmetic is that of the integers.
\<close>

definition int16 :: "int \<Rightarrow> int" where
  "int16 x = (x + 32768) mod 65536 - 32768"

record state =
  unitForce :: real
  maxForce :: real
  buttonState :: level
  continueFlag :: bool
  servoPos :: int
  servoStep :: int
  scaleActive :: bool
  servoChecked :: bool
  servoActive :: bool
  cardExists :: bool
  scaleStartTime :: int
  readTime :: int
  activeFileName :: string
  maxFileNum :: int
  clock :: int
  buttonReads :: nat
  scaleReads :: nat
  fileOpens :: nat
  fileSyncs :: nat
  fileIsOpen :: bool
  sdFile :: "csvline list"
  servoWritten :: int
  dirScans :: nat
  probeRuns :: nat

definition SAMPLE_MS :: int where
  "SAMPLE_MS = 250"

definition MIN_TEST_FORCE :: real where
  "MIN_TEST_FORCE = 50"

definition TIME_AT_MAX_THROTTLE :: int where
  "TIME_AT_MAX_THROTTLE = 3000"

definition maxServoPos :: int where
  "maxServoPos = 180 + TIME_AT_MAX_THROTTLE div SAMPLE_MS"

text \<open>The globals as their initialisers leave them; \<^verbatim>\<open>AUTO_TEST\<close> chooses two of them.\<close>

definition power_on :: "env \<Rightarrow> state" where
  "power_on e =
     \<lparr> unitForce = 0, maxForce = 0, buttonState = HIGH, continueFlag = True,
       servoPos = 0, servoStep = 0, scaleActive = False,
       servoChecked = (\<not> AUTO_TEST e), servoActive = AUTO_TEST e,
       cardExists = False, scaleStartTime = 0, readTime = 0, activeFileName = [],
       maxFileNum = 0, clock = 0, buttonReads = 0, scaleReads = 0, fileOpens = 0,
       fileSyncs = 0, fileIsOpen = False, sdFile = [], servoWritten = 0,
       dirScans = 0, probeRuns = 0 \<rparr>"

text \<open>
  Times are \<^verbatim>\<open>unsigned long\<close> values of 32 bits in the sketch and integers here, reduced
  modulo \<open>2 ^ 32\<close> where the sketch reads the clock or subtracts: \<^verbatim>\<open>delay(ms)\<close> and
  \<^verbatim>\<open>millis()\<close>.
\<close>

definition delay :: "int \<Rightarrow> state \<Rightarrow> state" where
  "delay ms s = s\<lparr>clock := clock s + ms\<rparr>"

definition millis :: "state \<Rightarrow> int" where
  "millis s = clock s mod 2 ^ 32"

text \<open>Subtraction of two \<^verbatim>\<open>unsigned long\<close> values, which wraps around.\<close>

definition usub :: "int \<Rightarrow> int \<Rightarrow> int" where
  "usub a b = (a - b) mod 2 ^ 32"

text \<open>\<^verbatim>\<open>buttonState = digitalRead(BUTTON_PIN)\<close>.\<close>

definition readButton :: "env \<Rightarrow> state \<Rightarrow> state" where
  "readButton e s =
     s\<lparr>buttonState := digitalRead e (buttonReads s), buttonReads := buttonReads s + 1\<rparr>"

text \<open>\<^verbatim>\<open>scale.get_units(n)\<close>: the reading, and the state with the call counted.\<close>

definition readScale :: "env \<Rightarrow> state \<Rightarrow> real \<times> state" where
  "readScale e s = (get_units e (scaleReads s), s\<lparr>scaleReads := scaleReads s + 1\<rparr>)"

text \<open>\<^verbatim>\<open>myServo.write(pos)\<close>.\<close>

definition servoWrite :: "int \<Rightarrow> state \<Rightarrow> state" where
  "servoWrite pos s = s\<lparr>servoWritten := pos\<rparr>"

subsection \<open>The button: \<^verbatim>\<open>delayCheckButton\<close>\<close>

text \<open>
  The first loop of \<^verbatim>\<open>delayCheckButton\<close>, with its \<^verbatim>\<open>break\<close>: it returns the value of
  \<^verbatim>\<open>total\<close> (here \<open>tot\<close>) with the state. (\<^verbatim>\<open>total\<close> is an \<^verbatim>\<open>unsigned long\<close>; it stays below
  \<open>dt + 50\<close>, so it does not wrap for the delays the sketch asks for.)
\<close>

function waitPress :: "env \<Rightarrow> int \<Rightarrow> int \<Rightarrow> state \<Rightarrow> int \<times> state" where
  "waitPress e dt tot s =
     (if tot < dt \<and> continueFlag s then
        (let s1 = readButton e s in
         if buttonState s1 = LOW then (tot, s1\<lparr>continueFlag := False\<rparr>)
         else waitPress e dt (tot + 50) (delay (min 50 (dt - tot)) s1))
      else (tot, s))"
  by pat_completeness auto
termination
  by (relation "measure (\<lambda>(e, dt, tot, s). nat (dt - tot))") auto

declare waitPress.simps [simp del]

text \<open>The second loop, with its \<^verbatim>\<open>return\<close>.\<close>

function waitRelease :: "env \<Rightarrow> int \<Rightarrow> bool \<Rightarrow> int \<Rightarrow> state \<Rightarrow> state" where
  "waitRelease e dt full tot s =
     (if tot < dt \<and> (full \<or> buttonState s = LOW) then
        (let s1 = readButton e s in
         if buttonState s1 = HIGH then s1
         else waitRelease e dt full (tot + 50) (delay (min 50 (dt - tot)) s1))
      else s)"
  by pat_completeness auto
termination
  by (relation "measure (\<lambda>(e, dt, full, tot, s). nat (dt - tot))") auto

declare waitRelease.simps [simp del]

definition delayCheckButton :: "env \<Rightarrow> int \<Rightarrow> bool \<Rightarrow> state \<Rightarrow> state" where
  "delayCheckButton e dt full s =
     (case waitPress e dt 0 (s\<lparr>buttonState := HIGH\<rparr>) of
        (tot, s1) \<Rightarrow> waitRelease e dt full tot s1)"

subsection \<open>The display: \<^verbatim>\<open>printLcdScroll\<close>\<close>

text \<open>
  The tokens that the calls \<^verbatim>\<open>strtok(textCopy, "\n")\<close>, \<^verbatim>\<open>strtok(NULL, "\n")\<close>, ... return
  in turn: the maximal runs of characters other than the line feed. \<open>cur\<close> is the token
  being read.
\<close>

fun strtok_all :: "string \<Rightarrow> string \<Rightarrow> string list" where
  "strtok_all cur [] = (if cur = [] then [] else [cur])"
| "strtok_all cur (c # cs) =
     (if c = CHR 0x0A then (if cur = [] then strtok_all [] cs else cur # strtok_all [] cs)
      else strtok_all (cur @ [c]) cs)"

text \<open>
  The loop of \<^verbatim>\<open>printLcdScroll\<close> over the tokens: two of them are shown (one, when it is
  the last) and the button is given two seconds.
\<close>

fun scrollTokens :: "env \<Rightarrow> string list \<Rightarrow> state \<Rightarrow> state" where
  "scrollTokens e [] s = s"
| "scrollTokens e [token] s = delayCheckButton e 2000 False s"
| "scrollTokens e (token # token2 # rest) s =
     scrollTokens e rest (delayCheckButton e 2000 False s)"

definition printLcdScroll :: "env \<Rightarrow> string \<Rightarrow> state \<Rightarrow> state" where
  "printLcdScroll e inputText s = scrollTokens e (strtok_all [] inputText) s"

definition cardFailedText :: string where
  "cardFailedText =
     ''Card Failed or'' @ [CHR 0x0A] @ ''Not Present'' @ [CHR 0x0A] @ ''Press Button'' @
     [CHR 0x0A] @ ''to Continue''"

definition tooHighText :: string where
  "tooHighText =
     ''File number'' @ [CHR 0x0A] @ ''too high!'' @ [CHR 0x0A] @ ''Clear SD Card'' @
     [CHR 0x0A] @ ''or'' @ [CHR 0x0A] @ ''Press button'' @ [CHR 0x0A] @ ''to reset at t_1''"

definition readyText :: string where
  "readyText =
     ''Ready to Test!'' @ [CHR 0x0A] @ '' '' @ [CHR 0x0A] @ ''Press Button'' @
     [CHR 0x0A] @ ''to Begin''"

subsection \<open>Set-up of the card\<close>

definition setupCard :: "env \<Rightarrow> state \<Rightarrow> state option" where
  "setupCard e s =
     (let s1 = (if sdBegin e then s\<lparr>continueFlag := False, cardExists := True\<rparr> else s) in
      case while_option continueFlag (printLcdScroll e cardFailedText) s1 of
        None \<Rightarrow> None
      | Some s2 \<Rightarrow> Some (s2\<lparr>continueFlag := True\<rparr>))"

subsection \<open>The servo: \<^verbatim>\<open>rampServo\<close> and \<^verbatim>\<open>checkServo\<close>\<close>

text \<open>
  \<^verbatim>\<open>rampServo\<close>: the step is chosen once, before the loop; the loop is the \<^verbatim>\<open>while\<close> of
  the sketch, which returns no state when it runs forever.
\<close>

definition rampServo :: "env \<Rightarrow> int \<Rightarrow> int \<Rightarrow> state \<Rightarrow> state option" where
  "rampServo e setPos dt s =
     (let deltaPos = int16 (setPos - servoPos s);
          step = (if deltaPos < 0 then - 1 else 1)
      in while_option (\<lambda>s. servoPos s \<noteq> setPos \<and> continueFlag s)
           (\<lambda>s. let s1 = s\<lparr>servoPos := int16 (servoPos s + step)\<rparr> in
                delayCheckButton e dt False (servoWrite (servoPos s1) s1)) s)"

text \<open>
  \<^verbatim>\<open>checkServo\<close> returns its verdict with the state. The assignment
  \<^verbatim>\<open>continueFlag = true\<close> that ends its body comes after the three \<^verbatim>\<open>return\<close>
  statements and is never executed, so it has no counterpart here.
\<close>

definition checkServo :: "env \<Rightarrow> state \<Rightarrow> (bool \<times> state) option" where
  "checkServo e s =
     (let s1 = s\<lparr>continueFlag := True, probeRuns := probeRuns s + 1\<rparr>;
          s2 = delay 2000 s1;
          s3 = delayCheckButton e 2000 False s2;
          (startForce, s4) = readScale e s3
      in case rampServo e 90 60 s4 of
           None \<Rightarrow> None
         | Some s5 \<Rightarrow>
             (let s6 = delayCheckButton e 1000 False s5;
                  (force, s7) = readScale e s6;
                  s8 = s7\<lparr>unitForce := force\<rparr>
              in case rampServo e 0 60 s8 of
                   None \<Rightarrow> None
                 | Some s9 \<Rightarrow>
                     (let s10 = servoWrite 0 (s9\<lparr>servoPos := 0\<rparr>) in
                      if \<not> continueFlag s10 then Some (False, delay 1000 s10)
                      else if \<bar>unitForce s10 - startForce\<bar> > MIN_TEST_FORCE
                        then Some (True, delay 1000 s10)
                      else Some (False, delay 1000 s10))))"

subsection \<open>The log file\<close>

text \<open>Printing to a file that is not open stores nothing.\<close>

definition filePrintLine :: "csvline \<Rightarrow> state \<Rightarrow> state" where
  "filePrintLine l s = (if fileIsOpen s then s\<lparr>sdFile := sdFile s @ [l]\<rparr> else s)"

definition writeHeader :: "state \<Rightarrow> state" where
  "writeHeader s = filePrintLine Header s"

definition writeData :: "int \<Rightarrow> int \<Rightarrow> real \<Rightarrow> state \<Rightarrow> state" where
  "writeData time pos force s = filePrintLine (Data time pos force) s"

text \<open>
  The crawl of \<^verbatim>\<open>getFileName\<close> over the entries of the directory, which updates
  \<^verbatim>\<open>maxFileNum\<close>.
\<close>

fun crawl :: "(string \<times> bool) list \<Rightarrow> int \<Rightarrow> int" where
  "crawl [] maxNum = maxNum"
| "crawl ((fileName, isDir) # entries) maxNum =
     crawl entries
       (if \<not> isDir \<and> isMatchingFormat fileName then max (getFileNum fileName) maxNum
        else maxNum)"

text \<open>
  The first statement of \<^verbatim>\<open>getFileName\<close>: the directory is crawled when the cached
  \<^verbatim>\<open>maxFileNum\<close> is 0 (and the directory opens).
\<close>

definition crawlOnce :: "env \<Rightarrow> state \<Rightarrow> state" where
  "crawlOnce e s =
     (if maxFileNum s = 0 then
        (if dirOpen e
         then s\<lparr>maxFileNum := crawl (dirEntries e) (maxFileNum s), dirScans := dirScans s + 1\<rparr>
         else s)
      else s)"

text \<open>\<^verbatim>\<open>getFileName\<close> returns the name it stores in \<^verbatim>\<open>newFileName\<close> with the state.\<close>

definition getFileName :: "env \<Rightarrow> state \<Rightarrow> (string \<times> state) option" where
  "getFileName e s =
     (let s1 = crawlOnce e s;
          nextFileNum = maxFileNum s1 + 1;
          s2 = s1\<lparr>maxFileNum := nextFileNum\<rparr>
      in if nextFileNum > 999 then
           (case while_option continueFlag (printLcdScroll e tooHighText)
                   ((delay 500 s2)\<lparr>continueFlag := True\<rparr>) of
              None \<Rightarrow> None
            | Some s3 \<Rightarrow> Some (snprintf_name 1, s3\<lparr>continueFlag := True, maxFileNum := 1\<rparr>))
         else Some (snprintf_name nextFileNum, s2))"

subsection \<open>The test: \<^verbatim>\<open>startTest\<close>, \<^verbatim>\<open>endTest\<close>, \<^verbatim>\<open>stepTest\<close>\<close>

text \<open>\<^verbatim>\<open>file.open(activeFileName, FILE_WRITE)\<close>.\<close>

definition openLog :: "env \<Rightarrow> state \<Rightarrow> state" where
  "openLog e s = s\<lparr>fileIsOpen := fileOpen e (fileOpens s), fileOpens := fileOpens s + 1\<rparr>"

text \<open>
  \<^verbatim>\<open>startTest\<close> in its three parts: the block under \<^verbatim>\<open>if (cardExists)\<close>, the block
  under \<^verbatim>\<open>if (!servoChecked && servoActive)\<close>, and the function itself.
\<close>

definition startLog :: "env \<Rightarrow> state \<Rightarrow> state option" where
  "startLog e s =
     (if cardExists s then
        (case getFileName e s of
           None \<Rightarrow> None
         | Some (newFileName, s1) \<Rightarrow>
             (let s2 = openLog e (s1\<lparr>activeFileName := newFileName\<rparr>) in
              if \<not> fileIsOpen s2 then Some s2 else Some (writeHeader s2)))
      else Some s)"

definition startProbe :: "env \<Rightarrow> state \<Rightarrow> state option" where
  "startProbe e s =
     (if \<not> servoChecked s \<and> servoActive s then
        (case checkServo e s of
           None \<Rightarrow> None
         | Some (found, s1) \<Rightarrow> Some (delay 2000 (s1\<lparr>servoChecked := found\<rparr>)))
      else Some s)"

definition startTest :: "env \<Rightarrow> state \<Rightarrow> state option" where
  "startTest e s =
     (case startLog e (s\<lparr>servoStep := 2\<rparr>) of
        None \<Rightarrow> None
      | Some s1 \<Rightarrow>
          (case startProbe e (delay 3000 s1) of
             None \<Rightarrow> None
           | Some s2 \<Rightarrow> Some (s2\<lparr>scaleStartTime := millis s2, readTime := 0\<rparr>)))"

definition endTest :: "state \<Rightarrow> state" where
  "endTest s =
     (let s1 = (if cardExists s then s\<lparr>fileIsOpen := False\<rparr> else s);
          s2 = delay 2000 s1
      in s2\<lparr>maxForce := 0\<rparr>)"

text \<open>
  \<^verbatim>\<open>stepTest\<close> in its parts. \<open>stepWait\<close> is the wait for the rest of the sample period.
  \<open>stepSample\<close> is the rest of the function: \<open>takeSample\<close> reads the time and the force,
  the line is written when the card exists, and the block under \<^verbatim>\<open>#ifdef CONT_SYNC\<close> is
  the branch on \<open>CONT_SYNC e\<close>, where \<open>abortTest\<close> is the body of
  \<^verbatim>\<open>if (!file.sync() || file.getWriteError())\<close>, which ends with \<^verbatim>\<open>return\<close>;
  \<open>advanceServo\<close> is the final \<^verbatim>\<open>if (servoChecked && servoActive)\<close>.
\<close>

definition stepWait :: "env \<Rightarrow> state \<Rightarrow> state" where
  "stepWait e s =
     (let waitRemaining =
            usub SAMPLE_MS (min 200 (usub (usub (millis s) (scaleStartTime s)) (readTime s)))
      in if waitRemaining > 0 then delayCheckButton e waitRemaining True s else s)"

definition takeSample :: "env \<Rightarrow> state \<Rightarrow> state" where
  "takeSample e s1 =
     (let s2 = s1\<lparr>readTime := usub (millis s1) (scaleStartTime s1)\<rparr>;
          (force, s3) = readScale e s2;
          s4 = s3\<lparr>unitForce := force\<rparr>
      in s4\<lparr>maxForce := max (unitForce s4) (maxForce s4)\<rparr>)"

definition abortTest :: "state \<Rightarrow> state" where
  "abortTest s =
     (let s1 = (delay 5000 s)\<lparr>continueFlag := False\<rparr> in
      if servoChecked s1 \<and> servoActive s1
      then servoWrite 0 (s1\<lparr>servoStep := 0, servoPos := 0\<rparr>)
      else s1)"

definition advanceServo :: "int \<Rightarrow> state \<Rightarrow> state" where
  "advanceServo actualServoPos s =
     (if servoChecked s \<and> servoActive s then
        (let s1 = servoWrite actualServoPos (s\<lparr>servoPos := int16 (servoPos s + servoStep s)\<rparr>) in
         if servoPos s1 \<ge> maxServoPos then s1\<lparr>servoStep := - 2\<rparr>
         else if servoPos s1 \<le> 0 then s1\<lparr>servoStep := 0, continueFlag := False\<rparr>
         else s1)
      else s)"

definition stepSample :: "env \<Rightarrow> state \<Rightarrow> state" where
  "stepSample e s1 =
     (let s5 = takeSample e s1;
          actualServoPos = min 180 (servoPos s5)
      in if cardExists s5 then
           (let s6 = writeData (readTime s5) actualServoPos (unitForce s5) s5 in
            if CONT_SYNC e then
              (let s7 = s6\<lparr>fileSyncs := fileSyncs s6 + 1\<rparr> in
               if \<not> fileSync e (fileSyncs s6) then abortTest s7
               else advanceServo actualServoPos s7)
            else advanceServo actualServoPos s6)
         else advanceServo actualServoPos s5)"

definition stepTest :: "env \<Rightarrow> state \<Rightarrow> state" where
  "stepTest e s = stepSample e (stepWait e s)"

subsection \<open>\<^verbatim>\<open>setup\<close> and \<^verbatim>\<open>loop\<close>\<close>

text \<open>
  The function \<^verbatim>\<open>setup\<close> of the sketch: of \<^verbatim>\<open>setupLcd\<close> the half second of \<^verbatim>\<open>delay\<close> is left; \<^verbatim>\<open>setupButton\<close>,
  \<^verbatim>\<open>setupScale\<close> and \<^verbatim>\<open>setupServo\<close> configure their device and change no global.
\<close>

definition setup_sketch :: "env \<Rightarrow> state \<Rightarrow> state option" where
  "setup_sketch e s = setupCard e (delay 500 s)"

text \<open>
  The three statements of \<^verbatim>\<open>loop\<close>: the \<^verbatim>\<open>while\<close> that shows the prompt when no test
  runs, the \<^verbatim>\<open>if (!continueFlag)\<close> that starts or ends a test, and the final
  \<^verbatim>\<open>if\<close> that steps the test or polls the button.
\<close>

definition idleWait :: "env \<Rightarrow> state \<Rightarrow> state option" where
  "idleWait e s =
     while_option (\<lambda>s. continueFlag s \<and> \<not> scaleActive s) (printLcdScroll e readyText) s"

definition toggleTest :: "env \<Rightarrow> state \<Rightarrow> state option" where
  "toggleTest e s =
     (if \<not> continueFlag s then
        (let s1 = s\<lparr>scaleActive := \<not> scaleActive s, continueFlag := True\<rparr> in
         case (if scaleActive s1 then startTest e s1 else Some (delay 5000 (endTest s1))) of
           None \<Rightarrow> None
         | Some s2 \<Rightarrow> Some (s2\<lparr>continueFlag := True\<rparr>))
      else Some s)"

definition stepOrPoll :: "env \<Rightarrow> state \<Rightarrow> state" where
  "stepOrPoll e s =
     (if scaleActive s \<and> continueFlag s then stepTest e s
      else delayCheckButton e 250 False s)"

definition loop :: "env \<Rightarrow> state \<Rightarrow> state option" where
  "loop e s =
     (case idleWait e s of
        None \<Rightarrow> None
      | Some s1 \<Rightarrow>
          (case toggleTest e s1 of
             None \<Rightarrow> None
           | Some s2 \<Rightarrow> Some (stepOrPoll e s2)))"

text \<open>
  The Arduino runtime calls \<^verbatim>\<open>setup\<close> once and then \<^verbatim>\<open>loop\<close> again and again:
  \<open>loops e n s\<close> is the state after \<open>n\<close> calls of \<^verbatim>\<open>loop\<close> from \<open>s\<close>, and
  \<open>firmware e n\<close> the state \<open>n\<close> calls of \<^verbatim>\<open>loop\<close> after power-on.
\<close>

fun loops :: "env \<Rightarrow> nat \<Rightarrow> state \<Rightarrow> state option" where
  "loops e 0 s = Some s"
| "loops e (Suc n) s = (case loop e s of None \<Rightarrow> None | Some s1 \<Rightarrow> loops e n s1)"

definition firmware :: "env \<Rightarrow> nat \<Rightarrow> state option" where
  "firmware e n = (case setup_sketch e (power_on e) of None \<Rightarrow> None | Some s \<Rightarrow> loops e n s)"

section \<open>Vocabulary of the properties\<close>

text \<open>A \<^verbatim>\<open>LOW\<close> level was read from the button by one of the reads \<open>a\<close>, ..., \<open>b - 1\<close>.\<close>

definition pressedBetween :: "env \<Rightarrow> nat \<Rightarrow> nat \<Rightarrow> bool" where
  "pressedBetween e a b = (\<exists>k \<in> {a ..< b}. digitalRead e k = LOW)"

text \<open>
  \<open>button_only s s'\<close>: the states agree on every field that \<^verbatim>\<open>delayCheckButton\<close> does not
  touch, that is on all but \<open>buttonState\<close>, \<open>continueFlag\<close>, \<open>clock\<close> and \<open>buttonReads\<close>.
\<close>

definition button_only :: "state \<Rightarrow> state \<Rightarrow> bool" where
  "button_only s s' =
     (unitForce s' = unitForce s \<and> maxForce s' = maxForce s \<and> servoPos s' = servoPos s \<and>
      servoStep s' = servoStep s \<and> scaleActive s' = scaleActive s \<and>
      servoChecked s' = servoChecked s \<and> servoActive s' = servoActive s \<and>
      cardExists s' = cardExists s \<and> scaleStartTime s' = scaleStartTime s \<and>
      readTime s' = readTime s \<and> activeFileName s' = activeFileName s \<and>
      maxFileNum s' = maxFileNum s \<and> scaleReads s' = scaleReads s \<and>
      fileOpens s' = fileOpens s \<and> fileSyncs s' = fileSyncs s \<and>
      fileIsOpen s' = fileIsOpen s \<and> sdFile s' = sdFile s \<and>
      servoWritten s' = servoWritten s \<and> dirScans s' = dirScans s \<and>
      probeRuns s' = probeRuns s)"

text \<open>
  A test bench for the concrete runs: automatic testing compiled in, no forced sync, a card
  with an empty root directory on which every file opens, a load cell that reads 0, and
  the button as given. \<open>pressed_at ks\<close> is the button that is \<^verbatim>\<open>LOW\<close> at exactly the reads
  listed in \<open>ks\<close>.
\<close>

definition bench :: "(nat \<Rightarrow> level) \<Rightarrow> env" where
  "bench btn =
     \<lparr> AUTO_TEST = True, CONT_SYNC = False, digitalRead = btn, get_units = (\<lambda>k. 0),
       sdBegin = True, dirOpen = True, dirEntries = [], fileOpen = (\<lambda>k. True),
       fileSync = (\<lambda>k. True) \<rparr>"

definition pressed_at :: "nat list \<Rightarrow> nat \<Rightarrow> level" where
  "pressed_at ks k = (if k \<in> set ks then LOW else HIGH)"

text \<open>
  The numbers of the log files in a directory listing, in the words of the specification:
  for every entry that is not a directory and whose name has the format, the number in the
  name; and the largest of them, 0 when there is none.
\<close>

definition fileNumbers :: "(string \<times> bool) list \<Rightarrow> int list" where
  "fileNumbers entries =
     map (\<lambda>(fileName, isDir). getFileNum fileName)
       (filter (\<lambda>(fileName, isDir). \<not> isDir \<and> isMatchingFormat fileName) entries)"

definition maxNumber :: "(string \<times> bool) list \<Rightarrow> int" where
  "maxNumber entries = Max (set (0 # fileNumbers entries))"

text \<open>The names that two calls of \<^verbatim>\<open>getFileName\<close> in a row return.\<close>

definition twoNames :: "env \<Rightarrow> state \<Rightarrow> (string \<times> string) option" where
  "twoNames e s =
     (case getFileName e s of
        None \<Rightarrow> None
      | Some (name1, s1) \<Rightarrow>
          (case getFileName e s1 of
             None \<Rightarrow> None
           | Some (name2, s2) \<Rightarrow> Some (name1, name2)))"

text \<open>The test bench with the given button and files with the given names on the card.\<close>

definition bench_dir :: "(nat \<Rightarrow> level) \<Rightarrow> string list \<Rightarrow> env" where
  "bench_dir btn names = (bench btn)\<lparr>dirEntries := map (\<lambda>fileName. (fileName, False)) names\<rparr>"

text \<open>
  \<open>kept s s'\<close>: the fields that the waits, the ramp, the probe and the filer leave alone
  (among those that the properties below speak of).
\<close>

definition kept :: "state \<Rightarrow> state \<Rightarrow> bool" where
  "kept s s' =
     (servoStep s' = servoStep s \<and> sdFile s' = sdFile s \<and> fileSyncs s' = fileSyncs s \<and>
      servoChecked s' = servoChecked s \<and> servoActive s' = servoActive s \<and>
      scaleActive s' = scaleActive s \<and> cardExists s' = cardExists s)"

text \<open>
  \<open>pressSeen e s s'\<close>: between \<open>s\<close> and \<open>s'\<close> the button was read some more times, and
  \<^verbatim>\<open>continueFlag\<close> changed only from true to false, and did so exactly when one of these
  reads was \<^verbatim>\<open>LOW\<close>.
\<close>

definition pressSeen :: "env \<Rightarrow> state \<Rightarrow> state \<Rightarrow> bool" where
  "pressSeen e s s' =
     (buttonReads s \<le> buttonReads s' \<and>
      (continueFlag s' \<longrightarrow> continueFlag s \<and> \<not> pressedBetween e (buttonReads s) (buttonReads s')) \<and>
      (continueFlag s \<and> \<not> continueFlag s' \<longrightarrow> pressedBetween e (buttonReads s) (buttonReads s')))"



text \<open>
  A forced sync failed at one of the checks \<open>a\<close>, ..., \<open>b - 1\<close>; the automatic sweep has
  come back to 0 and stopped; a line of the log file has its position field in 0..180; the
  invariant of the servo position and step that the sweep maintains as long as the position
  stays at most \<open>b\<close>.
\<close>

definition syncFailedBetween :: "env \<Rightarrow> nat \<Rightarrow> nat \<Rightarrow> bool" where
  "syncFailedBetween e a b = (CONT_SYNC e \<and> (\<exists>k \<in> {a ..< b}. \<not> fileSync e k))"

definition sweepEnded :: "state \<Rightarrow> bool" where
  "sweepEnded s = (servoChecked s \<and> servoActive s \<and> servoPos s \<le> 0 \<and> servoStep s = 0)"

definition row_ok :: "csvline \<Rightarrow> bool" where
  "row_ok l = (case l of Header \<Rightarrow> True | Data time pos force \<Rightarrow> 0 \<le> pos \<and> pos \<le> 180)"

definition servo_inv :: "int \<Rightarrow> state \<Rightarrow> bool" where
  "servo_inv b s =
     (0 \<le> servoPos s \<and> servoPos s \<le> b \<and> even (servoPos s) \<and>
      (servoStep s = 2 \<or> servoStep s = 0 \<or> servoStep s = - 2 \<and> 2 \<le> servoPos s))"

text \<open>
  \<open>sample_only s s'\<close>: the fields that the sample, the log line and the count of syncs leave
  alone.
\<close>

definition sample_only :: "state \<Rightarrow> state \<Rightarrow> bool" where
  "sample_only s s' =
     (buttonReads s' = buttonReads s \<and> continueFlag s' = continueFlag s \<and>
      servoPos s' = servoPos s \<and> servoStep s' = servoStep s \<and>
      servoChecked s' = servoChecked s \<and> servoActive s' = servoActive s \<and>
      probeRuns s' = probeRuns s \<and> scaleActive s' = scaleActive s \<and>
      cardExists s' = cardExists s)"

text \<open>Every line of the log file is \<open>row_ok\<close>.\<close>

definition rows_ok :: "state \<Rightarrow> bool" where
  "rows_ok s = list_all row_ok (sdFile s)"



text \<open>
  The test bench with a motor that answers: the load cell reads 0 the first time it is asked
  (the base line of the probe) and 100 afterwards.
\<close>

definition bench_found :: "(nat \<Rightarrow> level) \<Rightarrow> env" where
  "bench_found btn = (bench btn)\<lparr>get_units := (\<lambda>k. if k = 0 then 0 else 100)\<rparr>"




text \<open>
  The test bench with a motor that answers and a button that is pressed at the first read
  (the start of a test), released while the probe runs, and stuck \<^verbatim>\<open>LOW\<close> from read 427
  on, the first read of the wait for the second sample.
\<close>

definition bench_stuck :: env where
  "bench_stuck = bench_found (\<lambda>k. if k = 0 \<or> 427 \<le> k then LOW else HIGH)"

text \<open>
  \<open>cancelled running p s\<close>: in \<open>s\<close> a cancellation is pending (\<^verbatim>\<open>continueFlag\<close> is false), a
  test is running or not as \<open>running\<close> says, the servo was found and is under automatic
  control, the card is present, no read of the button before the 427th is left, and
  \<^verbatim>\<open>servoPos\<close> is \<open>p\<close>.
\<close>

definition cancelled :: "bool \<Rightarrow> int \<Rightarrow> state \<Rightarrow> bool" where
  "cancelled running p s =
     (\<not> continueFlag s \<and> scaleActive s = running \<and> servoChecked s \<and> servoActive s \<and>
      cardExists s \<and> 427 \<le> buttonReads s \<and> servoPos s = p)"

section \<open>File names\<close>

lemma dc_cases: "d < 10 \<Longrightarrow> d = 0 \<or> d = 1 \<or> d = 2 \<or> d = 3 \<or> d = 4 \<or> d = 5 \<or> d = 6 \<or> d = 7 \<or> d = 8 \<or> d = (9::nat)"
  by arith

lemma isdigit_digit_char: "d < 10 \<Longrightarrow> isdigit (digit_char d)"
  using dc_cases[of d] by (auto simp: isdigit_def digit_char_def)

lemma digit_val_digit_char: "d < 10 \<Longrightarrow> digit_val (digit_char d) = int d"
  using dc_cases[of d] by (auto simp: digit_val_def digit_char_def)

lemma isdigit_not_dot: "isdigit c \<Longrightarrow> c \<noteq> CHR ''.''"
  by (auto simp: isdigit_def)

lemma isdigit_not_space: "isdigit c \<Longrightarrow> \<not> isspace c"
  by (auto simp: isdigit_def isspace_def)

lemma isdigit_not_sign: "isdigit c \<Longrightarrow> c \<noteq> CHR ''-'' \<and> c \<noteq> CHR ''+''"
  by (auto simp: isdigit_def)

lemma strstr_digits: "list_all isdigit ds \<Longrightarrow> strstr (ds @ ''.csv'') ''.csv'' = Some (length ds)"
  by (induction ds) (auto dest: isdigit_not_dot)

lemma strstr_name: "list_all isdigit ds \<Longrightarrow> strstr (''t_'' @ ds @ ''.csv'') ''.csv'' = Some (length ds + 2)"
  using strstr_digits[of ds] by simp

lemma atoi_digits_snoc:
  "list_all isdigit ds \<Longrightarrow> isdigit c \<Longrightarrow> atoi_digits acc (ds @ [c]) = atoi_digits acc ds * 10 + digit_val c"
  by (induction ds arbitrary: acc) auto

lemma dec_nat_digits: "list_all isdigit (dec_nat n)"
  by (induction n rule: dec_nat.induct) (subst dec_nat.simps, simp add: isdigit_digit_char)

lemma atoi_digits_dec_nat: "atoi_digits 0 (dec_nat n) = int n"
proof (induction n rule: dec_nat.induct)
  case (1 n)
  show ?case
  proof (cases "n < 10")
    case True
    then show ?thesis by (subst dec_nat.simps) (simp add: isdigit_digit_char digit_val_digit_char)
  next
    case False
    with 1 have "atoi_digits 0 (dec_nat (n div 10)) = int (n div 10)" by simp
    moreover have "int (n div 10) * 10 + int (n mod 10) = int n" by arith
    ultimately show ?thesis using False
      by (subst dec_nat.simps)
         (simp add: atoi_digits_snoc dec_nat_digits isdigit_digit_char digit_val_digit_char)
  qed
qed

lemma dec_nat_nonempty: "dec_nat n \<noteq> []"
  by (subst dec_nat.simps) simp

lemma dec_nat_lt10: "n < 10 \<Longrightarrow> dec_nat n = [digit_char n]"
  by (subst dec_nat.simps) simp

lemma dec_nat_ge10: "10 \<le> n \<Longrightarrow> dec_nat n = dec_nat (n div 10) @ [digit_char (n mod 10)]"
  by (subst dec_nat.simps) simp

lemma length_dec_nat: "n < 1000 \<Longrightarrow> length (dec_nat n) \<le> 3"
proof -
  assume n: "n < 1000"
  consider "n < 10" | "10 \<le> n" "n div 10 < 10" | "10 \<le> n" "10 \<le> n div 10" "n div 10 div 10 < 10"
    using n by linarith
  then show ?thesis
    by cases (simp_all add: dec_nat_lt10 dec_nat_ge10)
qed

lemma atoi_of_digits: "list_all isdigit ds \<Longrightarrow> ds \<noteq> [] \<Longrightarrow> atoi ds = atoi_digits 0 ds"
  by (cases ds) (auto simp: atoi_def dest: isdigit_not_space isdigit_not_sign)

lemma getFileNum_name:
  assumes "list_all isdigit ds" "ds \<noteq> []"
  shows "getFileNum (''t_'' @ ds @ ''.csv'') = atoi_digits 0 ds"
  using assms strstr_name[of ds] by (simp add: getFileNum_def atoi_of_digits)

lemma isMatchingFormat_name:
  assumes "list_all isdigit ds" "1 \<le> length ds" "length ds \<le> 4"
  shows "isMatchingFormat (''t_'' @ ds @ ''.csv'')"
proof -
  let ?s = "''t_'' @ ds @ ''.csv''"
  have len: "length ?s = length ds + 6" by simp
  have pre: "take 2 ?s = ''t_''" by simp
  have suf: "drop (length ?s - 4) ?s = ''.csv''" by simp
  have "isdigit (?s ! i)" if "i \<in> set [2 ..< length ?s - 4]" for i
  proof -
    define j where "j = i - 2"
    have "2 \<le> i \<and> i < length ?s - 4"
      using that by (simp only: set_upt atLeastLessThan_iff)
    then have j: "i = Suc (Suc j)" "j < length ds"
      unfolding len j_def by arith+
    then have "?s ! i = ds ! j"
      by (simp add: nth_append)
    moreover have "isdigit (ds ! j)"
      using assms(1) j by (simp add: list_all_length)
    ultimately show ?thesis by simp
  qed
  then have dig: "list_all (\<lambda>i. isdigit (?s ! i)) [2 ..< length ?s - 4]"
    by (simp only: list_all_iff) blast
  have "\<not> (length ?s < 7 \<or> length ?s > 10)" using assms len by arith
  then show ?thesis
    unfolding isMatchingFormat_def Let_def using pre suf dig by (simp only: if_False simp_thms)
qed





text \<open>
  C10. Round trip of formatting and parsing: for every \<open>n\<close> from 1 to 999, the name that
  \<^verbatim>\<open>snprintf(newFileName, 10, "t_%d.csv", n)\<close> produces is accepted by
  \<^verbatim>\<open>isMatchingFormat\<close>, and \<^verbatim>\<open>getFileNum\<close> of that name is \<open>n\<close>.
\<close>

theorem name_roundtrip:
  assumes "1 \<le> n" "n \<le> 999"
  shows "isMatchingFormat (snprintf_name n) \<and> getFileNum (snprintf_name n) = n"
proof -
  let ?ds = "dec_nat (nat n)"
  have l: "length ?ds \<le> 3" using assms by (simp add: length_dec_nat)
  have ne: "?ds \<noteq> []" by (rule dec_nat_nonempty)
  then have l1: "1 \<le> length ?ds" by (cases ?ds) simp_all
  have nm: "snprintf_name n = ''t_'' @ ?ds @ ''.csv''"
    using assms l by (simp add: snprintf_name_def fmt_d_def)
  have "isMatchingFormat (''t_'' @ ?ds @ ''.csv'')"
    using l l1 by (intro isMatchingFormat_name dec_nat_digits) simp_all
  moreover have "getFileNum (''t_'' @ ?ds @ ''.csv'') = n"
    using assms by (simp only: getFileNum_name[OF dec_nat_digits ne] atoi_digits_dec_nat)
  ultimately show ?thesis by (simp only: nm)
qed


theorem name_roundtrip_witness:
  "(1::int) \<le> 42 \<and> (42::int) \<le> 999 \<and> isMatchingFormat (snprintf_name 42) \<and>
   getFileNum (snprintf_name 42) = 42"
  using name_roundtrip [of 42] by simp

section \<open>The button\<close>

lemma button_only_refl [simp]: "button_only s s"
  by (simp add: button_only_def)

lemma button_only_trans: "button_only s t \<Longrightarrow> button_only t u \<Longrightarrow> button_only s u"
  by (simp add: button_only_def)

lemma pressedBetween_mono:
  "pressedBetween e a b \<Longrightarrow> a' \<le> a \<Longrightarrow> b \<le> b' \<Longrightarrow> pressedBetween e a' b'"
  by (auto simp: pressedBetween_def)

lemma pressedBetween_empty [simp]: "\<not> pressedBetween e a a"
  by (simp add: pressedBetween_def)

lemma pressedBetween_split:
  "a \<le> b \<Longrightarrow> b \<le> c \<Longrightarrow> pressedBetween e a c = (pressedBetween e a b \<or> pressedBetween e b c)"
  by (auto simp: pressedBetween_def) (metis atLeastLessThan_iff not_le_imp_less)

lemma pressedBetween_Suc:
  "pressedBetween e a (Suc a) = (digitalRead e a = LOW)"
  by (auto simp: pressedBetween_def)

text \<open>What one run of the first loop does.\<close>

lemma waitPress_spec:
  "case waitPress e dt tot s of (tot', s') \<Rightarrow>
     button_only s s' \<and> buttonReads s \<le> buttonReads s' \<and> clock s \<le> clock s' \<and>
     continueFlag s' = (continueFlag s \<and> \<not> pressedBetween e (buttonReads s) (buttonReads s')) \<and>
     (continueFlag s' \<longrightarrow> \<not> tot' < dt) \<and>
     (continueFlag s \<and> tot < dt \<longrightarrow> buttonReads s < buttonReads s') \<and>
     (\<not> continueFlag s \<longrightarrow> s' = s \<and> tot' = tot) \<and>
     (continueFlag s \<and> \<not> continueFlag s' \<longrightarrow> buttonState s' = LOW \<and> tot' < dt)"
proof (induction e dt tot s rule: waitPress.induct)
  case (1 e dt tot s)
  show ?case
  proof (cases "tot < dt \<and> continueFlag s")
    case False
    then show ?thesis by (subst waitPress.simps) auto
  next
    case True
    let ?s1 = "readButton e s"
    have r: "buttonReads ?s1 = Suc (buttonReads s)" "button_only s ?s1" "continueFlag ?s1 = continueFlag s"
      "clock ?s1 = clock s" "buttonState ?s1 = digitalRead e (buttonReads s)"
      by (simp_all add: readButton_def button_only_def)
    show ?thesis
    proof (cases "buttonState ?s1 = LOW")
      case low: True
      have "button_only s (?s1\<lparr>continueFlag := False\<rparr>)"
        using r(2) by (simp add: button_only_def)
      moreover have "pressedBetween e (buttonReads s) (Suc (buttonReads s))"
        using low r(5) by (simp add: pressedBetween_Suc)
      ultimately show ?thesis using True low r
        by (subst waitPress.simps) (simp add: Let_def)
    next
      case high: False
      let ?s2 = "delay (min 50 (dt - tot)) ?s1"
      obtain tot' s' where w: "waitPress e dt (tot + 50) ?s2 = (tot', s')" by fastforce
      have d: "button_only s ?s2" "buttonReads ?s2 = Suc (buttonReads s)" "continueFlag ?s2"
        "clock s \<le> clock ?s2"
        using r True by (simp_all add: delay_def button_only_def)
      from 1[OF True refl high] w
      have ih: "button_only ?s2 s'" "buttonReads ?s2 \<le> buttonReads s'" "clock ?s2 \<le> clock s'"
        "continueFlag s' = (continueFlag ?s2 \<and> \<not> pressedBetween e (buttonReads ?s2) (buttonReads s'))"
        "continueFlag s' \<longrightarrow> \<not> tot' < dt"
        "continueFlag ?s2 \<and> \<not> continueFlag s' \<longrightarrow> buttonState s' = LOW \<and> tot' < dt"
        by simp_all
      have nl: "\<not> pressedBetween e (buttonReads s) (Suc (buttonReads s))"
        using high r(5) by (simp add: pressedBetween_Suc)
      have sp: "pressedBetween e (buttonReads s) (buttonReads s') =
            (pressedBetween e (buttonReads s) (Suc (buttonReads s)) \<or>
             pressedBetween e (Suc (buttonReads s)) (buttonReads s'))"
        using ih(2) d(2) by (intro pressedBetween_split) simp_all
      have res: "waitPress e dt tot s = (tot', s')"
        using True high w by (subst waitPress.simps) (simp add: Let_def)
      show ?thesis
        unfolding res using ih d True nl sp
        by (auto intro: button_only_trans)
    qed
  qed
qed

lemma waitRelease_spec:
  "button_only s (waitRelease e dt full tot s) \<and>
   buttonReads s \<le> buttonReads (waitRelease e dt full tot s) \<and>
   clock s \<le> clock (waitRelease e dt full tot s) \<and>
   continueFlag (waitRelease e dt full tot s) = continueFlag s"
proof (induction e dt full tot s rule: waitRelease.induct)
  case (1 e dt full tot s)
  show ?case
  proof (cases "tot < dt \<and> (full \<or> buttonState s = LOW)")
    case False
    then show ?thesis by (subst (1 2 3 4) waitRelease.simps) auto
  next
    case True
    let ?s1 = "readButton e s"
    have r: "buttonReads ?s1 = Suc (buttonReads s)" "button_only s ?s1" "continueFlag ?s1 = continueFlag s"
      "clock ?s1 = clock s"
      by (simp_all add: readButton_def button_only_def)
    show ?thesis
    proof (cases "buttonState ?s1 = HIGH")
      case high: True
      have "waitRelease e dt full tot s = ?s1"
        using True high by (subst waitRelease.simps) (simp add: Let_def)
      then show ?thesis using r by simp
    next
      case low: False
      let ?s2 = "delay (min 50 (dt - tot)) ?s1"
      have d: "button_only s ?s2" "buttonReads ?s2 = Suc (buttonReads s)" "continueFlag ?s2 = continueFlag s"
        "clock s \<le> clock ?s2"
        using r True by (simp_all add: delay_def button_only_def)
      have res: "waitRelease e dt full tot s = waitRelease e dt full (tot + 50) ?s2"
        using True low by (subst waitRelease.simps) (simp add: Let_def)
      from 1[OF True refl low] d show ?thesis
        unfolding res by (auto intro: button_only_trans)
    qed
  qed
qed

lemma waitRelease_done: "\<not> tot < dt \<Longrightarrow> waitRelease e dt full tot s = s"
  by (subst waitRelease.simps) simp

lemma delayCheckButton_spec:
  "button_only s (delayCheckButton e dt full s) \<and>
   buttonReads s \<le> buttonReads (delayCheckButton e dt full s) \<and>
   clock s \<le> clock (delayCheckButton e dt full s) \<and>
   (continueFlag (delayCheckButton e dt full s) \<longrightarrow>
      continueFlag s \<and>
      \<not> pressedBetween e (buttonReads s) (buttonReads (delayCheckButton e dt full s))) \<and>
   (continueFlag s \<and> \<not> continueFlag (delayCheckButton e dt full s) \<longrightarrow>
      pressedBetween e (buttonReads s) (buttonReads (delayCheckButton e dt full s))) \<and>
   (continueFlag s \<and> 0 < dt \<longrightarrow> buttonReads s < buttonReads (delayCheckButton e dt full s))"
proof -
  let ?s0 = "s\<lparr>buttonState := HIGH\<rparr>"
  obtain tot' s1 where w: "waitPress e dt 0 ?s0 = (tot', s1)" by fastforce
  let ?s' = "waitRelease e dt full tot' s1"
  have res: "delayCheckButton e dt full s = ?s'"
    by (simp add: delayCheckButton_def w)
  have s0: "button_only s ?s0" "buttonReads ?s0 = buttonReads s" "continueFlag ?s0 = continueFlag s"
    "clock ?s0 = clock s"
    by (simp_all add: button_only_def)
  from waitPress_spec[where e=e and dt=dt and tot=0 and s="?s0"] w
  have p: "button_only ?s0 s1" "buttonReads ?s0 \<le> buttonReads s1" "clock ?s0 \<le> clock s1"
    "continueFlag s1 = (continueFlag ?s0 \<and> \<not> pressedBetween e (buttonReads ?s0) (buttonReads s1))"
    "continueFlag s1 \<longrightarrow> \<not> tot' < dt"
    "continueFlag ?s0 \<and> 0 < dt \<longrightarrow> buttonReads ?s0 < buttonReads s1"
    by simp_all
  from waitRelease_spec[where s=s1 and e=e and dt=dt and full=full and tot=tot']
  have q: "button_only s1 ?s'" "buttonReads s1 \<le> buttonReads ?s'" "clock s1 \<le> clock ?s'"
    "continueFlag ?s' = continueFlag s1"
    by simp_all
  have a: "button_only s ?s'"
    using s0(1) p(1) q(1) by (blast intro: button_only_trans)
  have b: "buttonReads s \<le> buttonReads ?s'" "clock s \<le> clock ?s'"
    using s0 p q by simp_all
  have c: "continueFlag ?s' \<longrightarrow>
      continueFlag s \<and> \<not> pressedBetween e (buttonReads s) (buttonReads ?s')"
  proof
    assume f: "continueFlag ?s'"
    then have "continueFlag s1" using q(4) by simp
    then have "?s' = s1" using p(5) by (simp add: waitRelease_done)
    then show "continueFlag s \<and> \<not> pressedBetween e (buttonReads s) (buttonReads ?s')"
      using \<open>continueFlag s1\<close> p(4) s0 by simp
  qed
  have d: "continueFlag s \<and> \<not> continueFlag ?s' \<longrightarrow>
      pressedBetween e (buttonReads s) (buttonReads ?s')"
    using p(4) q(4) q(2) s0 by (auto intro: pressedBetween_mono)
  have g: "continueFlag s \<and> 0 < dt \<longrightarrow> buttonReads s < buttonReads ?s'"
    using p(6) q(2) s0 by auto
  show ?thesis unfolding res using a b c d g by blast
qed

text \<open>The same for the scrolling text.\<close>

lemma scrollTokens_spec:
  "button_only s (scrollTokens e ts s) \<and>
   buttonReads s \<le> buttonReads (scrollTokens e ts s) \<and>
   clock s \<le> clock (scrollTokens e ts s) \<and>
   (continueFlag (scrollTokens e ts s) \<longrightarrow>
      continueFlag s \<and> \<not> pressedBetween e (buttonReads s) (buttonReads (scrollTokens e ts s))) \<and>
   (continueFlag s \<and> \<not> continueFlag (scrollTokens e ts s) \<longrightarrow>
      pressedBetween e (buttonReads s) (buttonReads (scrollTokens e ts s))) \<and>
   (continueFlag s \<and> ts \<noteq> [] \<longrightarrow> buttonReads s < buttonReads (scrollTokens e ts s))"
proof (induction e ts s rule: scrollTokens.induct)
  case (1 e s)
  then show ?case by simp
next
  case (2 e token s)
  show ?case using delayCheckButton_spec[where s=s and e=e and dt=2000 and full=False] by simp
next
  case (3 e token token2 rest s)
  let ?s1 = "delayCheckButton e 2000 False s"
  let ?s' = "scrollTokens e rest ?s1"
  note d = delayCheckButton_spec[where s=s and e=e and dt=2000 and full=False]
  note ih = 3
  have sp: "pressedBetween e (buttonReads s) (buttonReads ?s') =
     (pressedBetween e (buttonReads s) (buttonReads ?s1) \<or>
      pressedBetween e (buttonReads ?s1) (buttonReads ?s'))"
    using d ih by (intro pressedBetween_split) simp_all
  have "button_only s ?s'" using d ih by (blast intro: button_only_trans)
  moreover have "buttonReads s \<le> buttonReads ?s'" "clock s \<le> clock ?s'"
    using d ih by (meson order_trans)+
  moreover have "continueFlag ?s' \<longrightarrow>
      continueFlag s \<and> \<not> pressedBetween e (buttonReads s) (buttonReads ?s')"
    using d ih sp by blast
  moreover have "continueFlag s \<and> \<not> continueFlag ?s' \<longrightarrow>
      pressedBetween e (buttonReads s) (buttonReads ?s')"
    using d ih sp by blast
  moreover have "continueFlag s \<longrightarrow> buttonReads s < buttonReads ?s'"
    using d ih by (metis less_le_trans zero_less_numeral)
  ultimately show ?case by simp
qed

lemma tokens_nonempty:
  "strtok_all [] cardFailedText \<noteq> []" "strtok_all [] tooHighText \<noteq> []"
  "strtok_all [] readyText \<noteq> []"
  by (simp_all add: cardFailedText_def tooHighText_def readyText_def)

lemma printLcdScroll_spec:
  "button_only s (printLcdScroll e msg s) \<and>
   buttonReads s \<le> buttonReads (printLcdScroll e msg s) \<and>
   clock s \<le> clock (printLcdScroll e msg s) \<and>
   (continueFlag (printLcdScroll e msg s) \<longrightarrow>
      continueFlag s \<and> \<not> pressedBetween e (buttonReads s) (buttonReads (printLcdScroll e msg s))) \<and>
   (continueFlag s \<and> \<not> continueFlag (printLcdScroll e msg s) \<longrightarrow>
      pressedBetween e (buttonReads s) (buttonReads (printLcdScroll e msg s))) \<and>
   (continueFlag s \<and> strtok_all [] msg \<noteq> [] \<longrightarrow>
      buttonReads s < buttonReads (printLcdScroll e msg s))"
  unfolding printLcdScroll_def by (rule scrollTokens_spec)


text \<open>The loops that show a text until the button is pressed.\<close>

lemma prompt_loop_result:
  assumes G: "\<And>s t. button_only s t \<Longrightarrow> G t = G s"
    and w: "while_option (\<lambda>s. continueFlag s \<and> G s) (printLcdScroll e msg) s = Some s'"
  shows "button_only s s' \<and> buttonReads s \<le> buttonReads s' \<and> clock s \<le> clock s' \<and>
     (continueFlag s' \<longrightarrow>
        continueFlag s \<and> \<not> pressedBetween e (buttonReads s) (buttonReads s')) \<and>
     (continueFlag s \<and> \<not> continueFlag s' \<longrightarrow>
        pressedBetween e (buttonReads s) (buttonReads s')) \<and>
     \<not> (continueFlag s' \<and> G s')"
proof -
  let ?P = "\<lambda>t. button_only s t \<and> buttonReads s \<le> buttonReads t \<and> clock s \<le> clock t \<and>
     (continueFlag t \<longrightarrow> continueFlag s \<and> \<not> pressedBetween e (buttonReads s) (buttonReads t)) \<and>
     (continueFlag s \<and> \<not> continueFlag t \<longrightarrow> pressedBetween e (buttonReads s) (buttonReads t))"
  have step: "?P (printLcdScroll e msg t)" if "?P t" "continueFlag t \<and> G t" for t
  proof -
    let ?t' = "printLcdScroll e msg t"
    note d = printLcdScroll_spec[where s=t and e=e and msg=msg]
    have sp: "pressedBetween e (buttonReads s) (buttonReads ?t') =
       (pressedBetween e (buttonReads s) (buttonReads t) \<or>
        pressedBetween e (buttonReads t) (buttonReads ?t'))"
      using d that by (intro pressedBetween_split) simp_all
    have "button_only s ?t'" using d that by (blast intro: button_only_trans)
    moreover have "buttonReads s \<le> buttonReads ?t'" "clock s \<le> clock ?t'"
      using d that by (meson order_trans)+
    moreover have "continueFlag ?t' \<longrightarrow>
        continueFlag s \<and> \<not> pressedBetween e (buttonReads s) (buttonReads ?t')"
      using d that sp by blast
    moreover have "continueFlag s \<and> \<not> continueFlag ?t' \<longrightarrow>
        pressedBetween e (buttonReads s) (buttonReads ?t')"
      using d that sp by blast
    ultimately show ?thesis by simp
  qed
  have "?P s'"
    by (rule while_option_rule[where P="?P", OF _ w]) (use step in simp_all)
  moreover have "\<not> (continueFlag s' \<and> G s')"
    using while_option_stop[OF w] by simp
  ultimately show ?thesis by simp
qed

lemma prompt_loop_returns:
  assumes G: "\<And>s t. button_only s t \<Longrightarrow> G t = G s"
    and tk: "strtok_all [] msg \<noteq> []"
    and k: "buttonReads s \<le> k" "digitalRead e k = LOW"
  shows "\<exists>s'. while_option (\<lambda>s. continueFlag s \<and> G s) (printLcdScroll e msg) s = Some s'"
  using k
proof (induction "k - buttonReads s" arbitrary: s rule: less_induct)
  case less
  let ?b = "\<lambda>s. continueFlag s \<and> G s"
  let ?c = "printLcdScroll e msg"
  show ?case
  proof (cases "?b s")
    case False
    then show ?thesis by (subst while_option_unfold) auto
  next
    case True
    note d = printLcdScroll_spec[where s=s and e=e and msg=msg]
    have un: "while_option ?b ?c s = while_option ?b ?c (?c s)"
      using True by (subst while_option_unfold) simp
    show ?thesis
    proof (cases "continueFlag (?c s)")
      case False
      then show ?thesis unfolding un by (subst while_option_unfold) simp
    next
      case f: True
      then have np: "\<not> pressedBetween e (buttonReads s) (buttonReads (?c s))"
        using d by simp
      have lt: "buttonReads s < buttonReads (?c s)" using d True tk by simp
      have "buttonReads (?c s) \<le> k"
      proof (rule ccontr)
        assume "\<not> buttonReads (?c s) \<le> k"
        then have "pressedBetween e (buttonReads s) (buttonReads (?c s))"
          using less.prems by (auto simp: pressedBetween_def)
        with np show False by simp
      qed
      moreover have "k - buttonReads (?c s) < k - buttonReads s"
        using lt calculation by arith
      ultimately show ?thesis
        unfolding un using less.hyps[of "?c s"] less.prems(2) by simp
    qed
  qed
qed

lemma prompt_loop_blocks:
  assumes G: "\<And>s t. button_only s t \<Longrightarrow> G t = G s"
    and b: "continueFlag s" "G s"
    and k: "\<forall>k \<ge> buttonReads s. digitalRead e k = HIGH"
  shows "while_option (\<lambda>s. continueFlag s \<and> G s) (printLcdScroll e msg) s = None"
proof -
  let ?c = "printLcdScroll e msg"
  have inv: "continueFlag ((?c ^^ n) s) \<and> G ((?c ^^ n) s) \<and>
      buttonReads s \<le> buttonReads ((?c ^^ n) s)" for n
  proof (induction n)
    case 0
    then show ?case using b by simp
  next
    case (Suc n)
    let ?t = "(?c ^^ n) s"
    note d = printLcdScroll_spec[where s="?t" and e=e and msg=msg]
    have "\<not> pressedBetween e (buttonReads ?t) (buttonReads (?c ?t))"
      using k Suc by (auto simp: pressedBetween_def)
    then have "continueFlag (?c ?t)" using d Suc by blast
    moreover have "G (?c ?t)" using d Suc G by blast
    moreover have "buttonReads s \<le> buttonReads (?c ?t)" using d Suc by (meson order_trans)
    ultimately show ?case by simp
  qed
  then show ?thesis by (simp add: while_option_def)
qed

section \<open>The file names given out by \<^verbatim>\<open>getFileName\<close>\<close>

lemma crawl_fold: "crawl entries m = fold max (fileNumbers entries) m"
proof (induction entries arbitrary: m)
  case Nil
  then show ?case by (simp add: fileNumbers_def)
next
  case (Cons a entries)
  obtain fileName isDir where a: "a = (fileName, isDir)" by (cases a)
  show ?case
  proof (cases "\<not> isDir \<and> isMatchingFormat fileName")
    case True
    then have "fileNumbers (a # entries) = getFileNum fileName # fileNumbers entries"
      by (simp add: fileNumbers_def a)
    then show ?thesis using True Cons[of "max (getFileNum fileName) m"]
      by (simp add: a)
  next
    case False
    then have "fileNumbers (a # entries) = fileNumbers entries"
      by (auto simp add: fileNumbers_def a)
    then show ?thesis using False Cons[of m] by (auto simp: a)
  qed
qed

lemma crawl_Max: "crawl entries m = Max (set (m # fileNumbers entries))"
  by (simp only: crawl_fold Max.set_eq_fold)

lemma maxNumber_nonneg: "0 \<le> maxNumber entries"
  by (simp add: maxNumber_def)

lemma snprintf_name_small:
  "0 \<le> n \<Longrightarrow> n \<le> 999 \<Longrightarrow> snprintf_name n = ''t_'' @ dec_nat (nat n) @ ''.csv''"
proof -
  assume n: "0 \<le> n" "n \<le> 999"
  then have "nat n < 1000" by simp
  then have "length (dec_nat (nat n)) \<le> 3" by (rule length_dec_nat)
  then show ?thesis using n by (simp add: snprintf_name_def fmt_d_def)
qed

lemma snprintf_name_1: "snprintf_name 1 = ''t_1.csv''"
  by (simp add: snprintf_name_def fmt_d_def dec_nat_lt10 digit_char_def)

lemma snprintf_name_2: "snprintf_name 2 = ''t_2.csv''"
  by (simp add: snprintf_name_def fmt_d_def dec_nat_lt10 digit_char_def)

lemma crawlOnce_cached: "maxFileNum s \<noteq> 0 \<Longrightarrow> crawlOnce e s = s"
  by (simp add: crawlOnce_def)

lemma getFileName_next:
  assumes "maxFileNum (crawlOnce e s) + 1 \<le> 999"
  shows "getFileName e s =
     Some (snprintf_name (maxFileNum (crawlOnce e s) + 1),
           (crawlOnce e s)\<lparr>maxFileNum := maxFileNum (crawlOnce e s) + 1\<rparr>)"
  using assms by (simp add: getFileName_def Let_def)

text \<open>
  C7, as amended. Let the cache be empty (\<^verbatim>\<open>maxFileNum\<close> is 0, as at power-on), the
  directory readable, and \<open>M\<close> the largest number of a matching name in it (0 when none
  matches). When \<open>M \<le> 998\<close> the first call returns \<^verbatim>\<open>t_<M+1>.csv\<close> and crawls the
  directory once; when \<open>M \<le> 997\<close> the second call returns \<^verbatim>\<open>t_<M+2>.csv\<close> and does not
  crawl, whatever the directory holds by then. (For \<open>M = 998\<close> the second number is 1000,
  which is above 999: that call takes the wrap-around branch.)
\<close>

theorem filer_next_names:
  assumes "maxFileNum s = 0" "dirOpen e" "maxNumber (dirEntries e) = M" "M \<le> 998"
  shows "\<exists>s1. getFileName e s = Some (''t_'' @ fmt_d (M + 1) @ ''.csv'', s1) \<and>
           dirScans s1 = dirScans s + 1 \<and>
           (M \<le> 997 \<longrightarrow>
              (\<forall>e'. \<exists>s2. getFileName e' s1 = Some (''t_'' @ fmt_d (M + 2) @ ''.csv'', s2) \<and>
                 dirScans s2 = dirScans s1))"
proof -
  have M0: "0 \<le> M" using assms(3) maxNumber_nonneg by blast
  let ?c = "crawlOnce e s"
  have c: "maxFileNum ?c = M" "dirScans ?c = dirScans s + 1"
    using assms by (simp_all add: crawlOnce_def crawl_Max maxNumber_def)
  let ?s1 = "?c\<lparr>maxFileNum := M + 1\<rparr>"
  have g1: "getFileName e s = Some (snprintf_name (M + 1), ?s1)"
    using getFileName_next[of e s] c assms(4) by simp
  have n1: "snprintf_name (M + 1) = ''t_'' @ fmt_d (M + 1) @ ''.csv''"
    using M0 assms(4) by (simp add: snprintf_name_small fmt_d_def)
  have second: "\<exists>s2. getFileName e' ?s1 = Some (''t_'' @ fmt_d (M + 2) @ ''.csv'', s2) \<and>
                 dirScans s2 = dirScans ?s1" if "M \<le> 997" for e'
  proof -
    have cc: "crawlOnce e' ?s1 = ?s1" using M0 by (simp add: crawlOnce_cached)
    have "maxFileNum (crawlOnce e' ?s1) + 1 \<le> 999" using that by (simp add: cc)
    from getFileName_next[OF this]
    have "getFileName e' ?s1 = Some (snprintf_name (M + 1 + 1), ?s1\<lparr>maxFileNum := M + 1 + 1\<rparr>)"
      by (simp only: cc) simp
    moreover have "M + 1 + 1 = M + 2" by simp
    ultimately have "getFileName e' ?s1 = Some (snprintf_name (M + 2), ?s1\<lparr>maxFileNum := M + 2\<rparr>)"
      by (simp only:)
    moreover have "snprintf_name (M + 2) = ''t_'' @ fmt_d (M + 2) @ ''.csv''"
      using M0 that by (simp add: snprintf_name_small fmt_d_def)
    ultimately show ?thesis by simp
  qed
  show ?thesis
    using g1 n1 c(2) second by simp
qed

lemma getFileName_wrap:
  assumes big: "maxFileNum (crawlOnce e s) + 1 > 999"
  shows "getFileName e s =
     (case while_option continueFlag (printLcdScroll e tooHighText)
             ((delay 500 ((crawlOnce e s)\<lparr>maxFileNum := maxFileNum (crawlOnce e s) + 1\<rparr>))
                \<lparr>continueFlag := True\<rparr>) of
        None \<Rightarrow> None
      | Some s3 \<Rightarrow> Some (snprintf_name 1, s3\<lparr>continueFlag := True, maxFileNum := 1\<rparr>))"
  using assms by (simp add: getFileName_def Let_def)

lemma crawlOnce_buttonReads: "buttonReads (crawlOnce e s) = buttonReads s"
  by (simp add: crawlOnce_def)

text \<open>
  C8. When the next file number is above 999, \<^verbatim>\<open>getFileName\<close> does not return as long as
  the button is not pressed: with a button that is never read \<^verbatim>\<open>LOW\<close> it never returns,
  and with a button that is read \<^verbatim>\<open>LOW\<close> at some later read it returns, after such a read,
  the name \<^verbatim>\<open>t_1.csv\<close> with the cached number reset to 1, so that the next call returns
  \<^verbatim>\<open>t_2.csv\<close>.
\<close>

theorem filer_wraps_after_confirmation:
  assumes big: "maxFileNum (crawlOnce e s) + 1 > 999"
  shows "((\<forall>k \<ge> buttonReads s. digitalRead e k = HIGH) \<longrightarrow> getFileName e s = None) \<and>
         ((\<exists>k \<ge> buttonReads s. digitalRead e k = LOW) \<longrightarrow>
            (\<exists>s'. getFileName e s = Some (''t_1.csv'', s') \<and> maxFileNum s' = 1 \<and>
                  pressedBetween e (buttonReads s) (buttonReads s') \<and>
                  (\<forall>e'. \<exists>s''. getFileName e' s' = Some (''t_2.csv'', s''))))"
proof -
  let ?s2 = "(delay 500 ((crawlOnce e s)\<lparr>maxFileNum := maxFileNum (crawlOnce e s) + 1\<rparr>))
                \<lparr>continueFlag := True\<rparr>"
  let ?w = "while_option continueFlag (printLcdScroll e tooHighText) ?s2"
  have w: "?w = while_option (\<lambda>s. continueFlag s \<and> True) (printLcdScroll e tooHighText) ?s2"
    by simp
  have r: "buttonReads ?s2 = buttonReads s" "continueFlag ?s2"
    by (simp_all add: delay_def crawlOnce_buttonReads)
  have never: "getFileName e s = None" if "\<forall>k \<ge> buttonReads s. digitalRead e k = HIGH"
  proof -
    have "?w = None"
      unfolding w using that r by (intro prompt_loop_blocks) simp_all
    then show ?thesis by (simp add: getFileName_wrap[OF big])
  qed
  have pressed: "\<exists>s'. getFileName e s = Some (''t_1.csv'', s') \<and> maxFileNum s' = 1 \<and>
                  pressedBetween e (buttonReads s) (buttonReads s') \<and>
                  (\<forall>e'. \<exists>s''. getFileName e' s' = Some (''t_2.csv'', s''))"
    if "\<exists>k \<ge> buttonReads s. digitalRead e k = LOW"
  proof -
    from that obtain k where k: "buttonReads ?s2 \<le> k" "digitalRead e k = LOW"
      using r by auto
    obtain s3 where s3: "?w = Some s3"
      unfolding w using prompt_loop_returns[where G="\<lambda>_. True", OF _ tokens_nonempty(2) k]
      by auto
    note res = prompt_loop_result[where G="\<lambda>_. True", OF _ s3[unfolded w]]
    let ?s' = "s3\<lparr>continueFlag := True, maxFileNum := 1\<rparr>"
    have g: "getFileName e s = Some (''t_1.csv'', ?s')"
      by (simp add: getFileName_wrap[OF big] s3 snprintf_name_1)
    have "\<not> continueFlag s3" using res by simp
    then have p: "pressedBetween e (buttonReads s) (buttonReads ?s')"
      using res r by simp
    have nxt: "\<exists>s''. getFileName e' ?s' = Some (''t_2.csv'', s'')" for e'
      using getFileName_next[of e' ?s'] by (simp add: crawlOnce_cached snprintf_name_2)
    show ?thesis using g p nxt by simp
  qed
  show ?thesis using never pressed by blast
qed


lemma getFileNum_evals:
  "getFileNum ''t_7.csv'' = 7" "getFileNum ''t_12.csv'' = 12" "getFileNum ''t_998.csv'' = 998"
  "getFileNum ''t_999.csv'' = 999"
  by (simp_all add: getFileNum_def atoi_def isspace_def isdigit_def digit_val_def)

lemma isMatchingFormat_evals:
  "isMatchingFormat ''t_7.csv''" "isMatchingFormat ''t_12.csv''" "isMatchingFormat ''t_998.csv''"
  "isMatchingFormat ''t_999.csv''" "\<not> isMatchingFormat ''notes.txt''"
  by (simp_all add: isMatchingFormat_def isdigit_def)

lemma dec_nat_999: "dec_nat 999 = ''999''"
  by (simp add: dec_nat_lt10 dec_nat_ge10 digit_char_def)

lemma fmt_d_evals:
  "fmt_d 13 = ''13''" "fmt_d 14 = ''14''" "fmt_d 999 = ''999''"
  by (simp_all add: fmt_d_def dec_nat_lt10 dec_nat_ge10 digit_char_def)

theorem filer_next_names_witness:
  "maxFileNum (power_on (bench_dir (pressed_at []) [''t_7.csv'', ''notes.txt'', ''t_12.csv''])) = 0 \<and>
   dirOpen (bench_dir (pressed_at []) [''t_7.csv'', ''notes.txt'', ''t_12.csv'']) \<and>
   maxNumber (dirEntries (bench_dir (pressed_at []) [''t_7.csv'', ''notes.txt'', ''t_12.csv''])) = 12 \<and>
   twoNames (bench_dir (pressed_at []) [''t_7.csv'', ''notes.txt'', ''t_12.csv''])
     (power_on (bench_dir (pressed_at []) [''t_7.csv'', ''notes.txt'', ''t_12.csv''])) =
     Some (''t_13.csv'', ''t_14.csv'')"
proof -
  let ?e = "bench_dir (pressed_at []) [''t_7.csv'', ''notes.txt'', ''t_12.csv'']"
  have a: "maxFileNum (power_on ?e) = 0" by (simp add: power_on_def)
  have b: "dirOpen ?e" by (simp add: bench_dir_def bench_def)
  have c: "maxNumber (dirEntries ?e) = 12"
    by (simp add: bench_dir_def bench_def maxNumber_def fileNumbers_def
        getFileNum_evals isMatchingFormat_evals)
  from filer_next_names[OF a b c]
  obtain s1 where s1: "getFileName ?e (power_on ?e) = Some (''t_'' @ fmt_d (12 + 1) @ ''.csv'', s1)"
    "\<forall>e'. \<exists>s2. getFileName e' s1 = Some (''t_'' @ fmt_d (12 + 2) @ ''.csv'', s2) \<and>
        dirScans s2 = dirScans s1"
    by auto
  from s1(2) obtain s2 where "getFileName ?e s1 = Some (''t_'' @ fmt_d (12 + 2) @ ''.csv'', s2)"
    by blast
  with s1(1) have "twoNames ?e (power_on ?e) = Some (''t_13.csv'', ''t_14.csv'')"
    by (simp add: twoNames_def fmt_d_evals)
  then show ?thesis using a b c by simp
qed

text \<open>
  C7 as stated fails at \<open>M = 998\<close>: after \<^verbatim>\<open>t_999.csv\<close> the second call does not return
  \<^verbatim>\<open>t_1000.csv\<close>; it waits for the button and returns \<^verbatim>\<open>t_1.csv\<close>.
\<close>

theorem filer_second_call_counterexample:
  "maxNumber (dirEntries (bench_dir (pressed_at [0]) [''t_7.csv'', ''t_998.csv''])) = 998 \<and>
   twoNames (bench_dir (pressed_at [0]) [''t_7.csv'', ''t_998.csv''])
     (power_on (bench_dir (pressed_at [0]) [''t_7.csv'', ''t_998.csv''])) =
     Some (''t_999.csv'', ''t_1.csv'')"
proof -
  let ?e = "bench_dir (pressed_at [0]) [''t_7.csv'', ''t_998.csv'']"
  have c: "maxNumber (dirEntries ?e) = 998"
    by (simp add: bench_dir_def bench_def maxNumber_def fileNumbers_def
        getFileNum_evals isMatchingFormat_evals)
  have cr: "maxFileNum (crawlOnce ?e (power_on ?e)) = 998"
    using c by (simp add: crawlOnce_def crawl_Max maxNumber_def power_on_def bench_dir_def bench_def)
  let ?s1 = "(crawlOnce ?e (power_on ?e))\<lparr>maxFileNum := 999\<rparr>"
  have g1: "getFileName ?e (power_on ?e) = Some (''t_999.csv'', ?s1)"
    using getFileName_next[of ?e "power_on ?e"] cr
    by (simp add: snprintf_name_small dec_nat_999)
  have r: "buttonReads ?s1 = 0" by (simp add: crawlOnce_buttonReads power_on_def)
  have cc: "crawlOnce ?e ?s1 = ?s1" by (simp add: crawlOnce_cached)
  let ?s2 = "(delay 500 (?s1\<lparr>maxFileNum := 1000\<rparr>))\<lparr>continueFlag := True\<rparr>"
  have k: "buttonReads ?s2 \<le> 0" "digitalRead ?e 0 = LOW"
    by (simp add: delay_def crawlOnce_buttonReads power_on_def)
       (simp add: bench_dir_def bench_def pressed_at_def)
  obtain s3 where s3: "while_option (\<lambda>s. continueFlag s \<and> True) (printLcdScroll ?e tooHighText) ?s2 = Some s3"
    using prompt_loop_returns[where G="\<lambda>_. True", OF _ tokens_nonempty(2) k] by auto
  have "getFileName ?e ?s1 = Some (''t_1.csv'', s3\<lparr>continueFlag := True, maxFileNum := 1\<rparr>)"
    using s3 by (simp add: getFileName_wrap cc snprintf_name_1)
  then show ?thesis using c g1 by (simp add: twoNames_def)
qed

theorem filer_wraps_after_confirmation_witness:
  "maxFileNum (crawlOnce (bench_dir (pressed_at [3]) [''t_999.csv''])
      (power_on (bench_dir (pressed_at [3]) [''t_999.csv'']))) + 1 > 999 \<and>
   digitalRead (bench_dir (pressed_at [3]) [''t_999.csv'']) 3 = LOW \<and>
   twoNames (bench_dir (pressed_at [3]) [''t_999.csv''])
      (power_on (bench_dir (pressed_at [3]) [''t_999.csv''])) = Some (''t_1.csv'', ''t_2.csv'') \<and>
   getFileName (bench_dir (pressed_at []) [''t_999.csv''])
      (power_on (bench_dir (pressed_at []) [''t_999.csv''])) = None"
proof -
  let ?e = "bench_dir (pressed_at [3]) [''t_999.csv'']"
  let ?n = "bench_dir (pressed_at []) [''t_999.csv'']"
  have big: "maxFileNum (crawlOnce e (power_on e)) + 1 > 999"
    if "dirOpen e" "dirEntries e = [(''t_999.csv'', False)]" for e
    using that by (simp add: crawlOnce_def power_on_def getFileNum_evals isMatchingFormat_evals)
  have e: "dirOpen ?e" "dirEntries ?e = [(''t_999.csv'', False)]"
    "dirOpen ?n" "dirEntries ?n = [(''t_999.csv'', False)]"
    by (simp_all add: bench_dir_def bench_def)
  have low: "digitalRead ?e 3 = LOW" "buttonReads (power_on ?e) \<le> 3"
    by (simp_all add: bench_dir_def bench_def pressed_at_def power_on_def)
  have high: "\<forall>k \<ge> buttonReads (power_on ?n). digitalRead ?n k = HIGH"
    by (simp add: bench_dir_def bench_def pressed_at_def)
  from filer_wraps_after_confirmation[OF big[OF e(1,2)]] low
  obtain s' where s': "getFileName ?e (power_on ?e) = Some (''t_1.csv'', s')"
    "\<forall>e'. \<exists>s''. getFileName e' s' = Some (''t_2.csv'', s'')"
    by blast
  from s'(2) obtain s'' where "getFileName ?e s' = Some (''t_2.csv'', s'')" by blast
  with s'(1) have two: "twoNames ?e (power_on ?e) = Some (''t_1.csv'', ''t_2.csv'')"
    by (simp add: twoNames_def)
  from filer_wraps_after_confirmation[OF big[OF e(3,4)]] high
  have none: "getFileName ?n (power_on ?n) = None" by blast
  show ?thesis using big[OF e(1,2)] low(1) two none by simp
qed

section \<open>The ramp, the probe, and the start and the end of a test\<close>

lemma kept_refl [simp]: "kept s s"
  by (simp add: kept_def)

lemma kept_trans: "kept s t \<Longrightarrow> kept t u \<Longrightarrow> kept s u"
  by (simp add: kept_def)

lemma button_only_kept: "button_only s s' \<Longrightarrow> kept s s'"
  by (simp add: button_only_def kept_def)

lemma pressSeen_refl [simp]: "pressSeen e s s"
  by (simp add: pressSeen_def)

lemma pressSeen_trans:
  assumes "pressSeen e s t" "pressSeen e t u"
  shows "pressSeen e s u"
proof -
  have sp: "pressedBetween e (buttonReads s) (buttonReads u) =
     (pressedBetween e (buttonReads s) (buttonReads t) \<or>
      pressedBetween e (buttonReads t) (buttonReads u))"
    using assms by (intro pressedBetween_split) (simp_all add: pressSeen_def)
  show ?thesis
    using assms unfolding pressSeen_def sp by (meson order_trans)
qed

lemma delayCheckButton_pressSeen: "pressSeen e s (delayCheckButton e dt full s)"
  using delayCheckButton_spec[where s=s and e=e and dt=dt and full=full]
  by (simp add: pressSeen_def)

lemma pressSeen_same:
  "buttonReads s' = buttonReads s \<Longrightarrow> continueFlag s' = continueFlag s \<Longrightarrow> pressSeen e s s'"
  by (simp add: pressSeen_def)


lemma rampServo_spec:
  assumes "rampServo e setPos dt s = Some s'"
  shows "pressSeen e s s' \<and> kept s s' \<and> probeRuns s' = probeRuns s \<and>
         scaleReads s' = scaleReads s \<and> unitForce s' = unitForce s"
proof -
  let ?P = "\<lambda>t. pressSeen e s t \<and> kept s t \<and> probeRuns t = probeRuns s \<and>
         scaleReads t = scaleReads s \<and> unitForce t = unitForce s"
  let ?step = "if int16 (setPos - servoPos s) < 0 then - 1 else (1::int)"
  let ?c = "\<lambda>s. let s1 = s\<lparr>servoPos := int16 (servoPos s + ?step)\<rparr> in
                delayCheckButton e dt False (servoWrite (servoPos s1) s1)"
  have w: "while_option (\<lambda>s. servoPos s \<noteq> setPos \<and> continueFlag s) ?c s = Some s'"
    using assms by (simp add: rampServo_def Let_def)
  have step: "?P (?c t)" if "?P t" for t
  proof -
    let ?t1 = "servoWrite (int16 (servoPos t + ?step))
                 (t\<lparr>servoPos := int16 (servoPos t + ?step)\<rparr>)"
    have c: "?c t = delayCheckButton e dt False ?t1" by (simp add: Let_def)
    have t1: "pressSeen e t ?t1" "kept t ?t1" "probeRuns ?t1 = probeRuns t"
      "scaleReads ?t1 = scaleReads t" "unitForce ?t1 = unitForce t"
      by (simp_all add: servoWrite_def pressSeen_def kept_def)
    note d = delayCheckButton_spec[where s="?t1" and e=e and dt=dt and full=False]
    have b: "button_only ?t1 (?c t)" unfolding c using d by simp
    have "pressSeen e s (?c t)"
      unfolding c using that t1(1) delayCheckButton_pressSeen by (blast intro: pressSeen_trans)
    moreover have "kept s (?c t)"
      using that t1(2) button_only_kept[OF b] by (blast intro: kept_trans)
    moreover have "probeRuns (?c t) = probeRuns s" "scaleReads (?c t) = scaleReads s"
      "unitForce (?c t) = unitForce s"
      using that t1 b by (simp_all add: button_only_def)
    ultimately show ?thesis by simp
  qed
  show ?thesis
    by (rule while_option_rule[where P="?P", OF _ w]) (use step in simp_all)
qed

lemma delayCheckButton_keeps:
  assumes "pressSeen e s0 t" "kept s1 t" "probeRuns t = n"
  shows "pressSeen e s0 (delayCheckButton e dt full t) \<and> kept s1 (delayCheckButton e dt full t) \<and>
         probeRuns (delayCheckButton e dt full t) = n"
proof -
  have b: "button_only t (delayCheckButton e dt full t)"
    using delayCheckButton_spec[where s=t and e=e and dt=dt and full=full] by simp
  have "pressSeen e s0 (delayCheckButton e dt full t)"
    using assms(1) delayCheckButton_pressSeen by (rule pressSeen_trans)
  moreover have "kept s1 (delayCheckButton e dt full t)"
    using assms(2) button_only_kept[OF b] by (rule kept_trans)
  moreover have "probeRuns (delayCheckButton e dt full t) = n"
    using assms(3) b by (simp add: button_only_def)
  ultimately show ?thesis by simp
qed

lemma rampServo_keeps:
  assumes "rampServo e setPos dt t = Some t'" "pressSeen e s0 t" "kept s1 t" "probeRuns t = n"
  shows "pressSeen e s0 t' \<and> kept s1 t' \<and> probeRuns t' = n"
proof -
  note r = rampServo_spec[OF assms(1)]
  have "pressSeen e s0 t'" using assms(2) r[THEN conjunct1] by (rule pressSeen_trans)
  moreover have "kept s1 t'" using assms(3) r[THEN conjunct2, THEN conjunct1] by (rule kept_trans)
  moreover have "probeRuns t' = n" using assms(4) r by simp
  ultimately show ?thesis by simp
qed

lemma checkServo_spec:
  assumes "checkServo e s = Some (found, s')"
  shows "buttonReads s \<le> buttonReads s' \<and>
         (\<not> continueFlag s' \<longrightarrow> pressedBetween e (buttonReads s) (buttonReads s')) \<and>
         kept s s' \<and> probeRuns s' = probeRuns s + 1 \<and> servoPos s' = 0"
proof -
  let ?s1 = "s\<lparr>continueFlag := True, probeRuns := probeRuns s + 1\<rparr>"
  let ?Q = "\<lambda>t. pressSeen e ?s1 t \<and> kept s t \<and> probeRuns t = probeRuns s + 1"
  let ?s3 = "delayCheckButton e 2000 False (delay 2000 ?s1)"
  let ?s4 = "snd (readScale e ?s3)"
  from assms obtain s5 where s5: "rampServo e 90 60 ?s4 = Some s5"
    by (auto simp: checkServo_def Let_def split_beta split: option.splits)
  let ?s6 = "delayCheckButton e 1000 False s5"
  let ?s8 = "(snd (readScale e ?s6))\<lparr>unitForce := fst (readScale e ?s6)\<rparr>"
  from assms s5 obtain s9 where s9: "rampServo e 0 60 ?s8 = Some s9"
    by (auto simp: checkServo_def Let_def split_beta split: option.splits)
  let ?s10 = "servoWrite 0 (s9\<lparr>servoPos := 0\<rparr>)"
  have res: "s' = delay 1000 ?s10"
    using assms s5 s9
    by (auto simp: checkServo_def Let_def split_beta split: option.splits if_splits)
  have a1: "?Q (delay 2000 ?s1)"
    by (simp add: delay_def pressSeen_def kept_def)
  have a3: "?Q ?s3"
    using a1 by (intro delayCheckButton_keeps) simp_all
  have a4: "?Q ?s4"
    using a3 by (simp add: readScale_def pressSeen_def kept_def)
  have a5: "?Q s5"
    using a4 by (intro rampServo_keeps[OF s5]) simp_all
  have a6: "?Q ?s6"
    using a5 by (intro delayCheckButton_keeps) simp_all
  have a8: "?Q ?s8"
    using a6 by (simp add: readScale_def pressSeen_def kept_def)
  have a9: "?Q s9"
    using a8 by (intro rampServo_keeps[OF s9]) simp_all
  have a10: "?Q s'" "servoPos s' = 0"
    using a9 unfolding res by (simp_all add: delay_def servoWrite_def pressSeen_def kept_def)
  show ?thesis
    using a10 by (simp add: pressSeen_def)
qed

lemma crawlOnce_kept:
  "kept s (crawlOnce e s) \<and> servoPos (crawlOnce e s) = servoPos s \<and>
   probeRuns (crawlOnce e s) = probeRuns s \<and> continueFlag (crawlOnce e s) = continueFlag s \<and>
   fileIsOpen (crawlOnce e s) = fileIsOpen s"
  by (simp add: crawlOnce_def kept_def)

lemma getFileName_spec:
  assumes "getFileName e s = Some (name, s')"
  shows "buttonReads s \<le> buttonReads s' \<and> (continueFlag s \<longrightarrow> continueFlag s') \<and> kept s s' \<and>
         servoPos s' = servoPos s \<and> probeRuns s' = probeRuns s \<and> fileIsOpen s' = fileIsOpen s"
proof (cases "maxFileNum (crawlOnce e s) + 1 > 999")
  case False
  then have "s' = (crawlOnce e s)\<lparr>maxFileNum := maxFileNum (crawlOnce e s) + 1\<rparr>"
    using assms getFileName_next[of e s] by simp
  then show ?thesis
    using crawlOnce_kept[of s e] by (simp add: kept_def crawlOnce_buttonReads)
next
  case True
  let ?s2 = "(delay 500 ((crawlOnce e s)\<lparr>maxFileNum := maxFileNum (crawlOnce e s) + 1\<rparr>))
                \<lparr>continueFlag := True\<rparr>"
  from assms obtain s3 where
    w: "while_option (\<lambda>s. continueFlag s \<and> True) (printLcdScroll e tooHighText) ?s2 = Some s3"
    and res: "s' = s3\<lparr>continueFlag := True, maxFileNum := 1\<rparr>"
    by (auto simp: getFileName_wrap[OF True] split: option.splits)
  note r = prompt_loop_result[where G="\<lambda>_. True", OF _ w]
  have b: "button_only ?s2 s3" "buttonReads ?s2 \<le> buttonReads s3" using r by simp_all
  have s2: "kept s ?s2" "servoPos ?s2 = servoPos s" "probeRuns ?s2 = probeRuns s"
    "buttonReads ?s2 = buttonReads s" "fileIsOpen ?s2 = fileIsOpen s"
    using crawlOnce_kept[of s e] by (simp_all add: delay_def kept_def crawlOnce_buttonReads)
  have "kept s s3" using s2(1) button_only_kept[OF b(1)] by (rule kept_trans)
  then show ?thesis
    unfolding res using b s2 by (simp add: kept_def button_only_def)
qed

lemma startLog_spec:
  assumes "startLog e s = Some s'"
  shows "buttonReads s \<le> buttonReads s' \<and> (continueFlag s \<longrightarrow> continueFlag s') \<and>
         servoStep s' = servoStep s \<and> fileSyncs s' = fileSyncs s \<and>
         servoChecked s' = servoChecked s \<and> servoActive s' = servoActive s \<and>
         scaleActive s' = scaleActive s \<and> cardExists s' = cardExists s \<and>
         servoPos s' = servoPos s \<and> probeRuns s' = probeRuns s \<and>
         (sdFile s' = sdFile s \<or> sdFile s' = sdFile s @ [Header])"
proof (cases "cardExists s")
  case False
  then show ?thesis using assms by (simp add: startLog_def)
next
  case True
  from assms True obtain newFileName s1 where g: "getFileName e s = Some (newFileName, s1)"
    and res: "s' = (let s2 = openLog e (s1\<lparr>activeFileName := newFileName\<rparr>) in
              if \<not> fileIsOpen s2 then s2 else writeHeader s2)"
    by (auto simp: startLog_def Let_def split: option.splits if_splits)
  note sp = getFileName_spec[OF g]
  show ?thesis
    unfolding res using sp
    by (auto simp: Let_def openLog_def writeHeader_def filePrintLine_def kept_def)
qed

lemma startProbe_spec:
  assumes "startProbe e s = Some s'"
  shows "buttonReads s \<le> buttonReads s' \<and>
         (continueFlag s \<and> \<not> continueFlag s' \<longrightarrow>
            pressedBetween e (buttonReads s) (buttonReads s')) \<and>
         servoStep s' = servoStep s \<and> fileSyncs s' = fileSyncs s \<and> sdFile s' = sdFile s \<and>
         servoActive s' = servoActive s \<and> scaleActive s' = scaleActive s \<and>
         cardExists s' = cardExists s \<and>
         probeRuns s' = (if \<not> servoChecked s \<and> servoActive s then probeRuns s + 1 else probeRuns s) \<and>
         (servoChecked s \<longrightarrow> servoChecked s') \<and>
         servoPos s' = (if \<not> servoChecked s \<and> servoActive s then 0 else servoPos s)"
proof (cases "\<not> servoChecked s \<and> servoActive s")
  case False
  then show ?thesis using assms by (auto simp: startProbe_def)
next
  case True
  from assms True obtain found s1 where c: "checkServo e s = Some (found, s1)"
    and res: "s' = delay 2000 (s1\<lparr>servoChecked := found\<rparr>)"
    by (auto simp: startProbe_def split: option.splits)
  note sp = checkServo_spec[OF c]
  show ?thesis
    unfolding res using sp True by (auto simp: delay_def kept_def)
qed

lemma startTest_spec:
  assumes "startTest e s = Some s'"
  shows "buttonReads s \<le> buttonReads s' \<and>
         (continueFlag s \<and> \<not> continueFlag s' \<longrightarrow>
            pressedBetween e (buttonReads s) (buttonReads s')) \<and>
         servoStep s' = 2 \<and> fileSyncs s' = fileSyncs s \<and>
         servoActive s' = servoActive s \<and> scaleActive s' = scaleActive s \<and>
         cardExists s' = cardExists s \<and>
         probeRuns s' = (if \<not> servoChecked s \<and> servoActive s then probeRuns s + 1 else probeRuns s) \<and>
         (servoChecked s \<longrightarrow> servoChecked s') \<and>
         servoPos s' = (if \<not> servoChecked s \<and> servoActive s then 0 else servoPos s) \<and>
         (sdFile s' = sdFile s \<or> sdFile s' = sdFile s @ [Header])"
proof -
  from assms obtain s1 s2 where l: "startLog e (s\<lparr>servoStep := 2\<rparr>) = Some s1"
    and p: "startProbe e (delay 3000 s1) = Some s2"
    and res: "s' = s2\<lparr>scaleStartTime := millis s2, readTime := 0\<rparr>"
    by (auto simp: startTest_def split: option.splits)
  note a = startLog_spec[OF l]
  note b = startProbe_spec[OF p]
  have w: "pressedBetween e (buttonReads s) (buttonReads s2)"
    if "pressedBetween e (buttonReads (delay 3000 s1)) (buttonReads s2)"
    using that a b by (elim pressedBetween_mono) (simp_all add: delay_def)
  have f: "continueFlag s \<and> \<not> continueFlag s2 \<longrightarrow>
            pressedBetween e (buttonReads s) (buttonReads s2)"
    using a b w by (simp add: delay_def)
  have r: "buttonReads s \<le> buttonReads s2"
    using a b by (simp add: delay_def)
  have rest: "servoStep s2 = 2 \<and> fileSyncs s2 = fileSyncs s \<and>
         servoActive s2 = servoActive s \<and> scaleActive s2 = scaleActive s \<and>
         cardExists s2 = cardExists s \<and>
         probeRuns s2 = (if \<not> servoChecked s \<and> servoActive s then probeRuns s + 1 else probeRuns s) \<and>
         (servoChecked s \<longrightarrow> servoChecked s2) \<and>
         servoPos s2 = (if \<not> servoChecked s \<and> servoActive s then 0 else servoPos s) \<and>
         (sdFile s2 = sdFile s \<or> sdFile s2 = sdFile s @ [Header])"
    using a b by (simp add: delay_def)
  show ?thesis unfolding res using f r rest by simp
qed

lemma endTest_spec:
  "buttonReads (endTest s) = buttonReads s \<and> continueFlag (endTest s) = continueFlag s \<and>
   servoStep (endTest s) = servoStep s \<and> fileSyncs (endTest s) = fileSyncs s \<and>
   servoActive (endTest s) = servoActive s \<and> scaleActive (endTest s) = scaleActive s \<and>
   cardExists (endTest s) = cardExists s \<and> probeRuns (endTest s) = probeRuns s \<and>
   servoChecked (endTest s) = servoChecked s \<and> servoPos (endTest s) = servoPos s \<and>
   sdFile (endTest s) = sdFile s"
  by (simp add: endTest_def delay_def Let_def)


lemma int16_range: "- 32768 \<le> int16 x \<and> int16 x \<le> 32767"
  using pos_mod_bound[of 65536 "x + 32768"] pos_mod_sign[of 65536 "x + 32768"]
  by (simp add: int16_def)

lemma int16_cong: "int16 x mod 65536 = x mod 65536"
  by (simp add: int16_def mod_simps)

lemma ramp_distance:
  assumes sg: "step = 1 \<or> step = - 1"
    and r: "- 32768 \<le> p" "p \<le> 32767" "- 32768 \<le> q" "q \<le> 32767" "p \<noteq> q"
  shows "(step * (q - int16 (p + step))) mod 65536 = (step * (q - p)) mod 65536 - 1"
proof -
  let ?d = "step * (q - p)"
  have "(q - int16 (p + step)) mod 65536 = (q - (p + step)) mod 65536"
    by (rule mod_diff_cong) (simp_all add: int16_cong)
  then have "(step * (q - int16 (p + step))) mod 65536 = (step * (q - (p + step))) mod 65536"
    by (rule mod_mult_cong[OF refl])
  also have "step * (q - (p + step)) = ?d - 1"
    using sg by (auto simp: algebra_simps)
  also have "(?d - 1) mod 65536 = (?d mod 65536 - 1) mod 65536"
    by (simp add: mod_simps)
  finally have e: "(step * (q - int16 (p + step))) mod 65536 = (?d mod 65536 - 1) mod 65536" .
  have d: "?d \<noteq> 0" "\<bar>?d\<bar> < 65536" using sg r by auto
  have "?d mod 65536 \<noteq> 0"
  proof
    assume "?d mod 65536 = 0"
    then have "65536 dvd ?d" by (simp add: dvd_eq_mod_eq_0)
    then have "\<bar>65536::int\<bar> \<le> \<bar>?d\<bar>" using d(1) by (intro dvd_imp_le_int) simp_all
    then show False using d(2) by simp
  qed
  then have "1 \<le> ?d mod 65536" "?d mod 65536 < 65536"
    using pos_mod_sign[of 65536 ?d] pos_mod_bound[of 65536 ?d] by simp_all
  then have "(?d mod 65536 - 1) mod 65536 = ?d mod 65536 - 1"
    by (intro mod_pos_pos_trivial) simp_all
  then show ?thesis using e by simp
qed

text \<open>
  The ramp always ends when its target is a value of an \<^verbatim>\<open>int\<close>, so the probe always
  returns.
\<close>

lemma rampServo_returns:
  assumes q: "- 32768 \<le> setPos" "setPos \<le> 32767"
  shows "\<exists>s'. rampServo e setPos dt s = Some s'"
proof -
  define step :: int where "step = (if int16 (setPos - servoPos s) < 0 then - 1 else 1)"
  define dist where "dist t = nat ((step * (setPos - servoPos t)) mod 65536)" for t :: state
  define f where
    "f t = (if - 32768 \<le> servoPos t \<and> servoPos t \<le> 32767 then dist t else 65536)" for t :: state
  let ?c = "\<lambda>s. let s1 = s\<lparr>servoPos := int16 (servoPos s + step)\<rparr> in
                delayCheckButton e dt False (servoWrite (servoPos s1) s1)"
  let ?b = "\<lambda>s. servoPos s \<noteq> setPos \<and> continueFlag s"
  have pos: "servoPos (?c t) = int16 (servoPos t + step)" for t
  proof -
    let ?t1 = "servoWrite (int16 (servoPos t + step)) (t\<lparr>servoPos := int16 (servoPos t + step)\<rparr>)"
    have "button_only ?t1 (delayCheckButton e dt False ?t1)"
      using delayCheckButton_spec[where s="?t1" and e=e and dt=dt and full=False] by simp
    then show ?thesis by (simp add: Let_def button_only_def servoWrite_def)
  qed
  have st: "step = 1 \<or> step = - 1" by (simp add: step_def)
  have fc: "f (?c t) = dist (?c t)" for t
    unfolding f_def pos using int16_range[of "servoPos t + step"] by simp
  have bound: "dist t < 65536" for t
  proof -
    have "(step * (setPos - servoPos t)) mod 65536 < 65536"
      by (rule pos_mod_bound) simp
    then show ?thesis by (simp add: dist_def)
  qed
  have dec: "f (?c t) < f t" if b: "?b t" for t
  proof (cases "- 32768 \<le> servoPos t \<and> servoPos t \<le> 32767")
    case False
    then have "f t = 65536" by (auto simp: f_def)
    then show ?thesis unfolding fc using bound[of "?c t"] by simp
  next
    case True
    have ne: "servoPos t \<noteq> setPos" using b by simp
    from True have t: "- 32768 \<le> servoPos t" "servoPos t \<le> 32767" by simp_all
    have e: "(step * (setPos - servoPos (?c t))) mod 65536 =
          (step * (setPos - servoPos t)) mod 65536 - 1"
      unfolding pos using st t q ne by (rule ramp_distance)
    have "0 \<le> (step * (setPos - servoPos (?c t))) mod 65536"
      by (rule pos_mod_sign) simp
    then have "dist (?c t) < dist t"
      unfolding dist_def e by simp
    moreover have "f t = dist t" using True by (auto simp: f_def)
    ultimately show ?thesis unfolding fc by simp
  qed
  have "\<exists>t. while_option ?b ?c s = Some t"
    by (rule measure_while_option_Some[where P="\<lambda>_. True" and f=f]) (use dec in blast)+
  then show ?thesis by (simp add: rampServo_def Let_def step_def)
qed

lemma checkServo_returns: "\<exists>found s'. checkServo e s = Some (found, s')"
proof -
  let ?s4 = "snd (readScale e (delayCheckButton e 2000 False
      (delay 2000 (s\<lparr>continueFlag := True, probeRuns := probeRuns s + 1\<rparr>))))"
  have "\<exists>s5. rampServo e 90 60 ?s4 = Some s5" by (rule rampServo_returns) simp_all
  then obtain s5 where s5: "rampServo e 90 60 ?s4 = Some s5" by blast
  let ?s6 = "delayCheckButton e 1000 False s5"
  let ?s8 = "(snd (readScale e ?s6))\<lparr>unitForce := fst (readScale e ?s6)\<rparr>"
  have "\<exists>s9. rampServo e 0 60 ?s8 = Some s9" by (rule rampServo_returns) simp_all
  then obtain s9 where s9: "rampServo e 0 60 ?s8 = Some s9" by blast
  show ?thesis
    using s5 s9 by (auto simp add: checkServo_def Let_def split_beta)
qed

lemma startProbe_returns: "\<exists>s'. startProbe e s = Some s'"
  using checkServo_returns[of e s] by (auto simp: startProbe_def)

lemma startTest_returns:
  assumes "\<not> cardExists s \<or> maxFileNum (crawlOnce e s) + 1 \<le> 999"
  shows "\<exists>s'. startTest e s = Some s'"
proof -
  let ?s0 = "s\<lparr>servoStep := 2\<rparr>"
  have c: "crawlOnce e ?s0 = (crawlOnce e s)\<lparr>servoStep := 2\<rparr>"
    by (simp add: crawlOnce_def)
  have "\<exists>s1. startLog e ?s0 = Some s1"
  proof (cases "cardExists s")
    case False
    then show ?thesis by (simp add: startLog_def)
  next
    case True
    with assms have "maxFileNum (crawlOnce e ?s0) + 1 \<le> 999" by (simp add: c)
    from getFileName_next[OF this] show ?thesis
      using True by (simp add: startLog_def Let_def)
  qed
  then obtain s1 where s1: "startLog e ?s0 = Some s1" by blast
  obtain s2 where s2: "startProbe e (delay 3000 s1) = Some s2"
    using startProbe_returns by blast
  show ?thesis using s1 s2 by (simp add: startTest_def)
qed

section \<open>One step of a test\<close>

lemma syncFailedBetween_mono:
  "syncFailedBetween e a b \<Longrightarrow> a' \<le> a \<Longrightarrow> b \<le> b' \<Longrightarrow> syncFailedBetween e a' b'"
  by (auto simp: syncFailedBetween_def)

lemma stepWait_spec: "button_only s (stepWait e s) \<and> pressSeen e s (stepWait e s)"
  using delayCheckButton_spec[where s=s and e=e and full=True] delayCheckButton_pressSeen[of e s _ True]
  by (simp add: stepWait_def Let_def)

lemma maxServoPos_eq: "maxServoPos = 192"
  by (simp add: maxServoPos_def TIME_AT_MAX_THROTTLE_def SAMPLE_MS_def)

lemma takeSample_spec:
  "sample_only s (takeSample e s) \<and> sdFile (takeSample e s) = sdFile s \<and>
   fileSyncs (takeSample e s) = fileSyncs s"
  by (simp add: takeSample_def Let_def split_beta readScale_def sample_only_def)

lemma writeData_spec:
  "sample_only s (writeData t p f s) \<and> fileSyncs (writeData t p f s) = fileSyncs s \<and>
   (sdFile (writeData t p f s) = sdFile s \<or> sdFile (writeData t p f s) = sdFile s @ [Data t p f])"
  by (simp add: writeData_def filePrintLine_def sample_only_def)

lemma abortTest_spec:
  "buttonReads (abortTest s) = buttonReads s \<and> \<not> continueFlag (abortTest s) \<and>
   servoChecked (abortTest s) = servoChecked s \<and> servoActive (abortTest s) = servoActive s \<and>
   probeRuns (abortTest s) = probeRuns s \<and> scaleActive (abortTest s) = scaleActive s \<and>
   cardExists (abortTest s) = cardExists s \<and> sdFile (abortTest s) = sdFile s \<and>
   fileSyncs (abortTest s) = fileSyncs s \<and> (servo_inv b s \<longrightarrow> servo_inv b (abortTest s))"
  by (simp add: abortTest_def Let_def delay_def servoWrite_def servo_inv_def)

lemma advanceServo_spec:
  "buttonReads (advanceServo a s) = buttonReads s \<and>
   servoChecked (advanceServo a s) = servoChecked s \<and>
   servoActive (advanceServo a s) = servoActive s \<and>
   probeRuns (advanceServo a s) = probeRuns s \<and> scaleActive (advanceServo a s) = scaleActive s \<and>
   cardExists (advanceServo a s) = cardExists s \<and> sdFile (advanceServo a s) = sdFile s \<and>
   fileSyncs (advanceServo a s) = fileSyncs s"
  by (simp add: advanceServo_def Let_def servoWrite_def)

lemma advanceServo_flag:
  "(continueFlag (advanceServo a s) \<longrightarrow> continueFlag s) \<and>
   (continueFlag s \<and> \<not> continueFlag (advanceServo a s) \<longrightarrow> sweepEnded (advanceServo a s))"
  by (simp add: advanceServo_def Let_def servoWrite_def sweepEnded_def)

lemma int16_id: "- 32768 \<le> x \<Longrightarrow> x \<le> 32767 \<Longrightarrow> int16 x = x"
  by (simp add: int16_def)

lemma servo_inv_mono: "servo_inv b s \<Longrightarrow> b \<le> b' \<Longrightarrow> servo_inv b' s"
  by (simp add: servo_inv_def)

lemma advanceServo_servo_inv:
  assumes "servo_inv b s" "b \<le> 32765"
  shows "servo_inv (b + 2) (advanceServo a s)"
proof -
  have r: "0 \<le> servoPos s" "servoPos s \<le> 32765" "- 2 \<le> servoStep s" "servoStep s \<le> 2"
    using assms by (auto simp: servo_inv_def)
  then have "int16 (servoPos s + servoStep s) = servoPos s + servoStep s"
    by (intro int16_id) simp_all
  then show ?thesis
    using assms(1)
    by (auto simp add: advanceServo_def Let_def servoWrite_def servo_inv_def maxServoPos_eq)
qed


lemma stepSample_cases:
  "\<exists>t. sample_only s t \<and>
       (sdFile t = sdFile s \<or>
        (\<exists>time force. sdFile t = sdFile s @ [Data time (min 180 (servoPos s)) force])) \<and>
       ((fileSyncs t = fileSyncs s \<or> fileSyncs t = fileSyncs s + 1) \<and>
          stepSample e s = advanceServo (min 180 (servoPos s)) t \<or>
        CONT_SYNC e \<and> \<not> fileSync e (fileSyncs s) \<and> fileSyncs t = fileSyncs s + 1 \<and>
          stepSample e s = abortTest t)"
proof -
  let ?s5 = "takeSample e s"
  let ?a = "min 180 (servoPos s)"
  let ?s6 = "writeData (readTime ?s5) ?a (unitForce ?s5) ?s5"
  let ?s7 = "?s6\<lparr>fileSyncs := fileSyncs ?s6 + 1\<rparr>"
  note t5 = takeSample_spec[of s e]
  note t6 = writeData_spec[of ?s5 "readTime ?s5" ?a "unitForce ?s5"]
  have p5: "servoPos ?s5 = servoPos s" using t5 by (simp add: sample_only_def)
  have o5: "sample_only s ?s5" using t5 by simp
  have o6: "sample_only s ?s6" using t5 t6 by (simp add: sample_only_def)
  have o7: "sample_only s ?s7" using o6 by (simp add: sample_only_def)
  have f6: "fileSyncs ?s6 = fileSyncs s" using t5 t6 by simp
  have r6: "sdFile ?s6 = sdFile s \<or>
        (\<exists>time force. sdFile ?s6 = sdFile s @ [Data time ?a force])"
    using t5 t6 by auto
  have r7: "sdFile ?s7 = sdFile s \<or>
        (\<exists>time force. sdFile ?s7 = sdFile s @ [Data time ?a force])"
    using r6 by simp
  have def: "stepSample e s =
      (if cardExists ?s5 then
         (if CONT_SYNC e then
            (if \<not> fileSync e (fileSyncs s) then abortTest ?s7 else advanceServo ?a ?s7)
          else advanceServo ?a ?s6)
       else advanceServo ?a ?s5)"
    by (simp only: stepSample_def Let_def p5 f6)
  consider (nocard) "\<not> cardExists ?s5"
    | (nosync) "cardExists ?s5" "\<not> CONT_SYNC e"
    | (ok) "cardExists ?s5" "CONT_SYNC e" "fileSync e (fileSyncs s)"
    | (fail) "cardExists ?s5" "CONT_SYNC e" "\<not> fileSync e (fileSyncs s)"
    by blast
  then show ?thesis
  proof cases
    case nocard
    then have "stepSample e s = advanceServo ?a ?s5" by (simp add: def)
    then show ?thesis using o5 t5 by (intro exI[of _ ?s5]) simp
  next
    case nosync
    then have "stepSample e s = advanceServo ?a ?s6" by (simp add: def)
    then show ?thesis using o6 r6 f6 by (intro exI[of _ ?s6]) simp
  next
    case ok
    then have "stepSample e s = advanceServo ?a ?s7" by (simp add: def)
    then show ?thesis using o7 r7 f6 by (intro exI[of _ ?s7]) simp
  next
    case fail
    then have "stepSample e s = abortTest ?s7" by (simp add: def)
    then show ?thesis using o7 r7 f6 fail by (intro exI[of _ ?s7]) simp
  qed
qed

lemma sample_only_servo_inv: "sample_only s t \<Longrightarrow> servo_inv b s \<Longrightarrow> servo_inv b t"
  by (simp add: sample_only_def servo_inv_def)

lemma stepSample_spec:
  "buttonReads (stepSample e s) = buttonReads s \<and>
   servoChecked (stepSample e s) = servoChecked s \<and>
   servoActive (stepSample e s) = servoActive s \<and>
   probeRuns (stepSample e s) = probeRuns s \<and>
   scaleActive (stepSample e s) = scaleActive s \<and>
   cardExists (stepSample e s) = cardExists s \<and>
   fileSyncs s \<le> fileSyncs (stepSample e s) \<and>
   (continueFlag (stepSample e s) \<longrightarrow> continueFlag s) \<and>
   (continueFlag s \<and> \<not> continueFlag (stepSample e s) \<longrightarrow>
      syncFailedBetween e (fileSyncs s) (fileSyncs (stepSample e s)) \<or>
      sweepEnded (stepSample e s)) \<and>
   (sdFile (stepSample e s) = sdFile s \<or>
    (\<exists>time force. sdFile (stepSample e s) = sdFile s @ [Data time (min 180 (servoPos s)) force])) \<and>
   (servo_inv b s \<and> b \<le> 32765 \<longrightarrow> servo_inv (b + 2) (stepSample e s))"
proof -
  from stepSample_cases[of s e] obtain t where o: "sample_only s t"
    and r: "sdFile t = sdFile s \<or>
        (\<exists>time force. sdFile t = sdFile s @ [Data time (min 180 (servoPos s)) force])"
    and c: "(fileSyncs t = fileSyncs s \<or> fileSyncs t = fileSyncs s + 1) \<and>
          stepSample e s = advanceServo (min 180 (servoPos s)) t \<or>
        CONT_SYNC e \<and> \<not> fileSync e (fileSyncs s) \<and> fileSyncs t = fileSyncs s + 1 \<and>
          stepSample e s = abortTest t"
    by blast
  from c show ?thesis
  proof
    assume a: "(fileSyncs t = fileSyncs s \<or> fileSyncs t = fileSyncs s + 1) \<and>
          stepSample e s = advanceServo (min 180 (servoPos s)) t"
    then have eq: "stepSample e s = advanceServo (min 180 (servoPos s)) t" by simp
    note sp = advanceServo_spec[of "min 180 (servoPos s)" t]
    note fl = advanceServo_flag[of "min 180 (servoPos s)" t]
    have i: "servo_inv b s \<and> b \<le> 32765 \<longrightarrow> servo_inv (b + 2) (stepSample e s)"
      unfolding eq using o by (blast intro: advanceServo_servo_inv sample_only_servo_inv)
    have f: "fileSyncs s \<le> fileSyncs (stepSample e s)"
      unfolding eq using a sp by auto
    have fl': "(continueFlag (stepSample e s) \<longrightarrow> continueFlag s) \<and>
       (continueFlag s \<and> \<not> continueFlag (stepSample e s) \<longrightarrow> sweepEnded (stepSample e s))"
      unfolding eq using fl o by (simp add: sample_only_def)
    have rest: "buttonReads (stepSample e s) = buttonReads s \<and>
       servoChecked (stepSample e s) = servoChecked s \<and>
       servoActive (stepSample e s) = servoActive s \<and>
       probeRuns (stepSample e s) = probeRuns s \<and>
       scaleActive (stepSample e s) = scaleActive s \<and>
       cardExists (stepSample e s) = cardExists s"
      unfolding eq using sp o by (simp add: sample_only_def)
    have rows: "sdFile (stepSample e s) = sdFile s \<or>
      (\<exists>time force. sdFile (stepSample e s) = sdFile s @ [Data time (min 180 (servoPos s)) force])"
      unfolding eq using sp r by simp
    show ?thesis using i f fl' rest rows by blast
  next
    assume a: "CONT_SYNC e \<and> \<not> fileSync e (fileSyncs s) \<and> fileSyncs t = fileSyncs s + 1 \<and>
          stepSample e s = abortTest t"
    then have eq: "stepSample e s = abortTest t" by simp
    note sp = abortTest_spec[of t]
    have "servo_inv b s \<longrightarrow> servo_inv b (abortTest t)"
      using o sp by (blast intro: sample_only_servo_inv)
    then have i: "servo_inv b s \<and> b \<le> 32765 \<longrightarrow> servo_inv (b + 2) (stepSample e s)"
      unfolding eq by (auto intro: servo_inv_mono)
    have f: "fileSyncs (stepSample e s) = fileSyncs s + 1"
      unfolding eq using a sp by simp
    have "syncFailedBetween e (fileSyncs s) (fileSyncs s + 1)"
      using a by (auto simp: syncFailedBetween_def)
    then have fl': "syncFailedBetween e (fileSyncs s) (fileSyncs (stepSample e s))"
      using f by simp
    have nf: "\<not> continueFlag (stepSample e s)" unfolding eq using sp by simp
    have rest: "buttonReads (stepSample e s) = buttonReads s \<and>
       servoChecked (stepSample e s) = servoChecked s \<and>
       servoActive (stepSample e s) = servoActive s \<and>
       probeRuns (stepSample e s) = probeRuns s \<and>
       scaleActive (stepSample e s) = scaleActive s \<and>
       cardExists (stepSample e s) = cardExists s"
      unfolding eq using sp o by (simp add: sample_only_def)
    have rows: "sdFile (stepSample e s) = sdFile s \<or>
      (\<exists>time force. sdFile (stepSample e s) = sdFile s @ [Data time (min 180 (servoPos s)) force])"
      unfolding eq using sp r by simp
    show ?thesis using i f fl' nf rest rows by simp
  qed
qed

lemma button_only_servo_inv: "button_only s t \<Longrightarrow> servo_inv b s \<Longrightarrow> servo_inv b t"
  by (simp add: button_only_def servo_inv_def)

lemma stepTest_spec:
  "buttonReads s \<le> buttonReads (stepTest e s) \<and>
   servoChecked (stepTest e s) = servoChecked s \<and>
   servoActive (stepTest e s) = servoActive s \<and>
   probeRuns (stepTest e s) = probeRuns s \<and>
   scaleActive (stepTest e s) = scaleActive s \<and>
   cardExists (stepTest e s) = cardExists s \<and>
   fileSyncs s \<le> fileSyncs (stepTest e s) \<and>
   (continueFlag (stepTest e s) \<longrightarrow> continueFlag s) \<and>
   (continueFlag s \<and> \<not> continueFlag (stepTest e s) \<longrightarrow>
      pressedBetween e (buttonReads s) (buttonReads (stepTest e s)) \<or>
      syncFailedBetween e (fileSyncs s) (fileSyncs (stepTest e s)) \<or>
      sweepEnded (stepTest e s)) \<and>
   (sdFile (stepTest e s) = sdFile s \<or>
    (\<exists>time force. sdFile (stepTest e s) = sdFile s @ [Data time (min 180 (servoPos s)) force])) \<and>
   (servo_inv b s \<and> b \<le> 32765 \<longrightarrow> servo_inv (b + 2) (stepTest e s))"
proof -
  let ?w = "stepWait e s"
  note w = stepWait_spec[of s e]
  note sp = stepSample_spec[of e ?w]
  have b: "button_only s ?w" and p: "pressSeen e s ?w" using w by simp_all
  have eqs: "servoChecked ?w = servoChecked s" "servoActive ?w = servoActive s"
    "probeRuns ?w = probeRuns s" "scaleActive ?w = scaleActive s" "cardExists ?w = cardExists s"
    "fileSyncs ?w = fileSyncs s" "sdFile ?w = sdFile s" "servoPos ?w = servoPos s"
    using b by (simp_all add: button_only_def)
  have r: "buttonReads s \<le> buttonReads ?w" using p by (simp add: pressSeen_def)
  have i: "servo_inv b s \<and> b \<le> 32765 \<longrightarrow> servo_inv (b + 2) (stepSample e ?w)"
    using sp b by (blast intro: button_only_servo_inv)
  have fl1: "continueFlag (stepSample e ?w) \<longrightarrow> continueFlag s"
    using sp p by (simp add: pressSeen_def)
  have fl2: "continueFlag s \<and> \<not> continueFlag (stepSample e ?w) \<longrightarrow>
      pressedBetween e (buttonReads s) (buttonReads (stepSample e ?w)) \<or>
      syncFailedBetween e (fileSyncs s) (fileSyncs (stepSample e ?w)) \<or>
      sweepEnded (stepSample e ?w)"
  proof (cases "continueFlag ?w")
    case True
    then show ?thesis using sp eqs by auto
  next
    case False
    then have "continueFlag s \<longrightarrow> pressedBetween e (buttonReads s) (buttonReads ?w)"
      using p by (simp add: pressSeen_def)
    then show ?thesis using sp by simp
  qed
  have rest: "buttonReads s \<le> buttonReads (stepSample e ?w) \<and>
   servoChecked (stepSample e ?w) = servoChecked s \<and>
   servoActive (stepSample e ?w) = servoActive s \<and>
   probeRuns (stepSample e ?w) = probeRuns s \<and>
   scaleActive (stepSample e ?w) = scaleActive s \<and>
   cardExists (stepSample e ?w) = cardExists s \<and>
   fileSyncs s \<le> fileSyncs (stepSample e ?w)"
    using sp eqs r by simp
  have rows: "sdFile (stepSample e ?w) = sdFile s \<or>
    (\<exists>time force. sdFile (stepSample e ?w) = sdFile s @ [Data time (min 180 (servoPos s)) force])"
    using sp eqs by simp
  show ?thesis
    unfolding stepTest_def using i fl1 fl2 rest rows by blast
qed

section \<open>The main loop\<close>

lemma setupCard_spec:
  assumes "setupCard e s = Some s'"
  shows "continueFlag s' \<and> buttonReads s \<le> buttonReads s' \<and>
         servoStep s' = servoStep s \<and> sdFile s' = sdFile s \<and> fileSyncs s' = fileSyncs s \<and>
         servoChecked s' = servoChecked s \<and> servoActive s' = servoActive s \<and>
         scaleActive s' = scaleActive s \<and> servoPos s' = servoPos s \<and>
         probeRuns s' = probeRuns s"
proof -
  let ?s1 = "if sdBegin e then s\<lparr>continueFlag := False, cardExists := True\<rparr> else s"
  from assms obtain s2 where
    w: "while_option (\<lambda>s. continueFlag s \<and> True) (printLcdScroll e cardFailedText) ?s1 = Some s2"
    and res: "s' = s2\<lparr>continueFlag := True\<rparr>"
    by (auto simp: setupCard_def Let_def split: option.splits)
  note r = prompt_loop_result[where G="\<lambda>_. True", OF _ w]
  have b: "button_only ?s1 s2" "buttonReads ?s1 \<le> buttonReads s2" using r by simp_all
  show ?thesis
    unfolding res using b by (auto simp: button_only_def split: if_splits)
qed


lemma idleWait_spec:
  assumes "idleWait e s = Some s'"
  shows "button_only s s' \<and> pressSeen e s s' \<and> \<not> (continueFlag s' \<and> \<not> scaleActive s')"
proof -
  have G: "\<And>s t. button_only s t \<Longrightarrow> (\<not> scaleActive t) = (\<not> scaleActive s)"
    by (simp add: button_only_def)
  note r = prompt_loop_result[where G="\<lambda>s. \<not> scaleActive s", OF G assms[unfolded idleWait_def]]
  then show ?thesis by (simp add: pressSeen_def)
qed

lemma toggleTest_spec:
  assumes "toggleTest e s = Some s'"
  shows "continueFlag s' \<and> buttonReads s \<le> buttonReads s' \<and> fileSyncs s' = fileSyncs s \<and>
         servoActive s' = servoActive s \<and>
         (servoChecked s \<longrightarrow> servoChecked s' \<and> probeRuns s' = probeRuns s) \<and>
         (servo_inv b s \<longrightarrow> servo_inv b s') \<and>
         (sdFile s' = sdFile s \<or> sdFile s' = sdFile s @ [Header])"
proof (cases "continueFlag s")
  case True
  then show ?thesis using assms by (simp add: toggleTest_def)
next
  case False
  let ?s1 = "s\<lparr>scaleActive := \<not> scaleActive s, continueFlag := True\<rparr>"
  show ?thesis
  proof (cases "scaleActive ?s1")
    case True
    with False assms obtain s2 where st: "startTest e ?s1 = Some s2"
      and res: "s' = s2\<lparr>continueFlag := True\<rparr>"
      by (auto simp: toggleTest_def Let_def split: option.splits)
    note sp = startTest_spec[OF st]
    have "servo_inv b s \<longrightarrow> servo_inv b s2"
      using sp by (auto simp: servo_inv_def)
    then show ?thesis unfolding res using sp by (simp add: servo_inv_def)
  next
    case nact: False
    with False assms have res: "s' = (delay 5000 (endTest ?s1))\<lparr>continueFlag := True\<rparr>"
      by (auto simp: toggleTest_def Let_def split: option.splits)
    note sp = endTest_spec[of ?s1]
    show ?thesis unfolding res using sp by (simp add: delay_def servo_inv_def)
  qed
qed

lemma stepOrPoll_spec:
  "buttonReads s \<le> buttonReads (stepOrPoll e s) \<and>
   fileSyncs s \<le> fileSyncs (stepOrPoll e s) \<and>
   servoChecked (stepOrPoll e s) = servoChecked s \<and>
   probeRuns (stepOrPoll e s) = probeRuns s \<and>
   (continueFlag s \<and> \<not> continueFlag (stepOrPoll e s) \<longrightarrow>
      pressedBetween e (buttonReads s) (buttonReads (stepOrPoll e s)) \<or>
      syncFailedBetween e (fileSyncs s) (fileSyncs (stepOrPoll e s)) \<or>
      sweepEnded (stepOrPoll e s)) \<and>
   (sdFile (stepOrPoll e s) = sdFile s \<or>
    (\<exists>time force. sdFile (stepOrPoll e s) = sdFile s @ [Data time (min 180 (servoPos s)) force])) \<and>
   (servo_inv b s \<and> b \<le> 32765 \<longrightarrow> servo_inv (b + 2) (stepOrPoll e s))"
proof (cases "scaleActive s \<and> continueFlag s")
  case True
  then have eq: "stepOrPoll e s = stepTest e s" by (simp add: stepOrPoll_def)
  show ?thesis unfolding eq using stepTest_spec[of s e] by blast
next
  case False
  then have eq: "stepOrPoll e s = delayCheckButton e 250 False s" by (auto simp add: stepOrPoll_def)
  note d = delayCheckButton_spec[where s=s and e=e and dt=250 and full=False]
  have b: "button_only s (delayCheckButton e 250 False s)" using d by simp
  have i: "servo_inv b s \<longrightarrow> servo_inv (b + 2) (delayCheckButton e 250 False s)"
    using b by (auto intro: button_only_servo_inv servo_inv_mono)
  show ?thesis unfolding eq using d i b by (simp add: button_only_def)
qed

lemma loop_spec:
  assumes "loop e s = Some s'"
  shows "buttonReads s \<le> buttonReads s' \<and> fileSyncs s \<le> fileSyncs s' \<and>
         (\<not> continueFlag s' \<longrightarrow>
            pressedBetween e (buttonReads s) (buttonReads s') \<or>
            syncFailedBetween e (fileSyncs s) (fileSyncs s') \<or> sweepEnded s') \<and>
         (servoChecked s \<longrightarrow> servoChecked s' \<and> probeRuns s' = probeRuns s) \<and>
         (servo_inv b s \<and> b \<le> 32765 \<and> rows_ok s \<longrightarrow> servo_inv (b + 2) s' \<and> rows_ok s')"
proof -
  from assms obtain s1 s2 where i: "idleWait e s = Some s1" and t: "toggleTest e s1 = Some s2"
    and res: "s' = stepOrPoll e s2"
    by (auto simp: loop_def split: option.splits)
  note a = idleWait_spec[OF i]
  note b = toggleTest_spec[OF t, where b=b]
  note c = stepOrPoll_spec[where s=s2 and e=e and b=b]
  have bo: "button_only s s1" using a by simp
  have eq1: "fileSyncs s1 = fileSyncs s" "servoChecked s1 = servoChecked s"
    "probeRuns s1 = probeRuns s" "sdFile s1 = sdFile s"
    using bo by (simp_all add: button_only_def)
  have r1: "buttonReads s \<le> buttonReads s1" using a by (simp add: pressSeen_def)
  have r2: "buttonReads s \<le> buttonReads s2" using r1 b by simp
  have f2: "fileSyncs s2 = fileSyncs s" using eq1 b by simp
  have mono: "buttonReads s \<le> buttonReads s'" "fileSyncs s \<le> fileSyncs s'"
    unfolding res using r2 f2 c by simp_all
  have flag: "\<not> continueFlag s' \<longrightarrow>
            pressedBetween e (buttonReads s) (buttonReads s') \<or>
            syncFailedBetween e (fileSyncs s) (fileSyncs s') \<or> sweepEnded s'"
  proof
    assume "\<not> continueFlag s'"
    then have "pressedBetween e (buttonReads s2) (buttonReads s') \<or>
      syncFailedBetween e (fileSyncs s2) (fileSyncs s') \<or> sweepEnded s'"
      using b c unfolding res by simp
    moreover have "pressedBetween e (buttonReads s) (buttonReads s')"
      if "pressedBetween e (buttonReads s2) (buttonReads s')"
      using that r2 by (rule pressedBetween_mono) simp
    ultimately show "pressedBetween e (buttonReads s) (buttonReads s') \<or>
            syncFailedBetween e (fileSyncs s) (fileSyncs s') \<or> sweepEnded s'"
      unfolding f2 by blast
  qed
  have probe: "servoChecked s \<longrightarrow> servoChecked s' \<and> probeRuns s' = probeRuns s"
    unfolding res using eq1 b c by simp
  have inv: "servo_inv (b + 2) s' \<and> rows_ok s'" if h: "servo_inv b s" "rows_ok s" "b \<le> 32765"
  proof -
    have i1: "servo_inv b s1" using h(1) bo by (rule button_only_servo_inv[rotated])
    have k1: "rows_ok s1" using h(2) eq1(4) by (simp add: rows_ok_def)
    have i2: "servo_inv b s2" using i1 b by simp
    have k2: "rows_ok s2" using k1 b by (auto simp: rows_ok_def row_ok_def)
    have i3: "servo_inv (b + 2) s'" unfolding res using i2 c h(3) by simp
    have p2: "0 \<le> servoPos s2" using i2 by (simp add: servo_inv_def)
    have k3: "rows_ok s'"
      unfolding res using k2 c p2 by (auto simp: rows_ok_def row_ok_def)
    show ?thesis using i3 k3 by simp
  qed
  show ?thesis using mono flag probe inv by blast
qed

lemma loops_spec:
  assumes "loops e n s = Some s'"
  shows "(servoChecked s \<longrightarrow> servoChecked s' \<and> probeRuns s' = probeRuns s) \<and>
         (servo_inv b s \<and> b + 2 * int n \<le> 32767 \<and> rows_ok s \<longrightarrow>
            servo_inv (b + 2 * int n) s' \<and> rows_ok s')"
  using assms
proof (induction n arbitrary: s b)
  case 0
  then show ?case by simp
next
  case (Suc n)
  from Suc.prems obtain s1 where l: "loop e s = Some s1" and r: "loops e n s1 = Some s'"
    by (auto split: option.splits)
  note a = loop_spec[OF l, where b=b]
  note c = Suc.IH[OF r, where b="b + 2"]
  have p: "servoChecked s \<longrightarrow> servoChecked s' \<and> probeRuns s' = probeRuns s"
    using a c by auto
  have i: "servo_inv (b + 2 * int (Suc n)) s' \<and> rows_ok s'"
    if h: "servo_inv b s" "b + 2 * int (Suc n) \<le> 32767" "rows_ok s"
  proof -
    have "b \<le> 32765" using h(2) by simp
    then have "servo_inv (b + 2) s1 \<and> rows_ok s1" using a h by simp
    moreover have "b + 2 + 2 * int n \<le> 32767" using h(2) by simp
    ultimately have "servo_inv (b + 2 + 2 * int n) s' \<and> rows_ok s'" using c by simp
    moreover have "b + 2 + 2 * int n = b + 2 * int (Suc n)" by simp
    ultimately show ?thesis by simp
  qed
  show ?case using p i by blast
qed

section \<open>The cancellation flag\<close>





section \<open>The probe, the waits and the log in a run of the firmware\<close>



lemma loops_add:
  "loops e (n + m) s = (case loops e n s of None \<Rightarrow> None | Some t \<Rightarrow> loops e m t)"
  by (induction n arbitrary: s) (auto split: option.splits)

lemma firmware_add:
  "firmware e (n + m) = (case firmware e n of None \<Rightarrow> None | Some t \<Rightarrow> loops e m t)"
  by (simp add: firmware_def loops_add split: option.splits)

lemma power_on_inv: "servo_inv 0 (power_on e) \<and> rows_ok (power_on e)"
  by (simp add: power_on_def servo_inv_def rows_ok_def)















text \<open>
  C4. The claim, and the header comment of \<^verbatim>\<open>delayCheckButton\<close>: with \<^verbatim>\<open>full == true\<close>
  the wait lasts the full \<^verbatim>\<open>dt\<close> whatever the button does. The function: when the button
  is read \<^verbatim>\<open>LOW\<close> and then \<^verbatim>\<open>HIGH\<close>, the second loop returns at once; here a wait of 250 ms
  returns without any delay.
\<close>

theorem full_wait_cut_short:
  "clock (delayCheckButton (bench (pressed_at [0])) 250 True (power_on (bench (pressed_at [0])))) =
   clock (power_on (bench (pressed_at [0])))"
  by code_simp

theorem full_wait_cut_short_witness:
  "continueFlag (power_on (bench (pressed_at [0]))) \<and>
   clock (delayCheckButton (bench (pressed_at [0])) 250 True (power_on (bench (pressed_at [0])))) -
     clock (power_on (bench (pressed_at [0]))) = 0"
  using full_wait_cut_short by (simp add: power_on_def)

text \<open>
  C5. The claim: whenever the sequencer is idle again, \<^verbatim>\<open>servoPos\<close> is 0. The sketch:
  the button starts a test, the probe finds the servo, the button is pressed during the
  second sample, and after the third call of \<^verbatim>\<open>loop\<close> the test has ended
  (\<^verbatim>\<open>scaleActive\<close> is false) with \<^verbatim>\<open>servoPos\<close> at 4.
\<close>

theorem servo_left_running_after_cancel:
  "map_option (\<lambda>s. (scaleActive s, servoChecked s, servoPos s))
      (firmware (bench_found (pressed_at [0, 427])) 3) = Some (False, True, 4)"
  by code_simp

theorem servo_left_running_after_cancel_witness:
  "map_option (\<lambda>s. servoPos s = 0) (firmware (bench_found (pressed_at [0, 427])) 3) = Some False"
proof -
  from servo_left_running_after_cancel obtain s where
    "firmware (bench_found (pressed_at [0, 427])) 3 = Some s" "servoPos s = 4"
    by auto
  then show ?thesis by simp
qed

text \<open>
  As long as the position cannot have wrapped, that is in the first 16383 calls of \<^verbatim>\<open>loop\<close>
  after power-on, every data line of the log file has its position field between 0 and
  180.
\<close>

lemma logged_position_in_range_early:
  assumes "firmware e n = Some s" "n \<le> 16383"
  shows "list_all row_ok (sdFile s)"
proof -
  from assms obtain s0 where s0: "setup_sketch e (power_on e) = Some s0"
    and l: "loops e n s0 = Some s"
    by (auto simp: firmware_def split: option.splits)
  have "setupCard e (delay 500 (power_on e)) = Some s0"
    using s0 by (simp add: setup_sketch_def)
  from setupCard_spec[OF this] have "servo_inv 0 s0 \<and> rows_ok s0"
    using power_on_inv[of e] by (auto simp add: servo_inv_def rows_ok_def delay_def)
  moreover have "0 + 2 * int n \<le> 32767" using assms(2) by simp
  ultimately have "rows_ok s" using loops_spec[OF l, where b=0] by blast
  then show ?thesis by (simp add: rows_ok_def)
qed

lemma delayCheckButton_stuck:
  assumes "continueFlag s" "0 < dt" "digitalRead e (buttonReads s) = LOW"
  shows "\<not> continueFlag (delayCheckButton e dt full s)"
proof
  assume c: "continueFlag (delayCheckButton e dt full s)"
  note sp = delayCheckButton_spec[where s=s and e=e and dt=dt and full=full]
  from sp c assms have "buttonReads s < buttonReads (delayCheckButton e dt full s)" by simp
  then have "pressedBetween e (buttonReads s) (buttonReads (delayCheckButton e dt full s))"
    using assms(3) by (auto simp: pressedBetween_def)
  with sp c show False by simp
qed

lemma idleWait_cancelled: "\<not> continueFlag s \<Longrightarrow> idleWait e s = Some s"
  unfolding idleWait_def by (subst while_option_unfold) simp

lemma getFileName_returns:
  assumes "buttonReads s \<le> k" "digitalRead e k = LOW"
  shows "\<exists>name s'. getFileName e s = Some (name, s')"
proof (cases "maxFileNum (crawlOnce e s) + 1 > 999")
  case False
  then show ?thesis by (simp add: getFileName_def Let_def)
next
  case True
  let ?s2 = "(delay 500 ((crawlOnce e s)\<lparr>maxFileNum := maxFileNum (crawlOnce e s) + 1\<rparr>))
                \<lparr>continueFlag := True\<rparr>"
  have r: "buttonReads ?s2 \<le> k"
    using assms(1) by (simp add: delay_def crawlOnce_buttonReads)
  obtain s3 where
    "while_option (\<lambda>s. continueFlag s \<and> True) (printLcdScroll e tooHighText) ?s2 = Some s3"
    using prompt_loop_returns[where G="\<lambda>_. True", OF _ tokens_nonempty(2) r assms(2)] by auto
  then show ?thesis by (simp add: getFileName_wrap[OF True])
qed

lemma takeSample_fileIsOpen: "fileIsOpen (takeSample e s) = fileIsOpen s"
  by (simp add: takeSample_def Let_def split_beta readScale_def)

lemma stepSample_logged:
  assumes "cardExists s" "fileIsOpen s" "\<not> CONT_SYNC e" "servoChecked s" "servoActive s"
    "\<not> continueFlag s"
  shows "\<exists>time force.
           sdFile (stepSample e s) = sdFile s @ [Data time (min 180 (servoPos s)) force] \<and>
           servoPos (stepSample e s) = int16 (servoPos s + servoStep s) \<and>
           \<not> continueFlag (stepSample e s) \<and> scaleActive (stepSample e s) = scaleActive s \<and>
           servoChecked (stepSample e s) \<and> servoActive (stepSample e s) \<and>
           cardExists (stepSample e s) \<and> buttonReads (stepSample e s) = buttonReads s"
proof -
  let ?t = "takeSample e s"
  let ?a = "min 180 (servoPos s)"
  let ?w = "writeData (readTime ?t) ?a (unitForce ?t) ?t"
  have so: "sample_only s ?t" and sd: "sdFile ?t = sdFile s"
    using takeSample_spec[of s e] by simp_all
  have f: "cardExists ?t" "servoPos ?t = servoPos s" "servoChecked ?t" "servoActive ?t"
    "\<not> continueFlag ?t" "scaleActive ?t = scaleActive s" "buttonReads ?t = buttonReads s"
    "servoStep ?t = servoStep s"
    using so assms by (simp_all add: sample_only_def)
  have eq: "stepSample e s = advanceServo ?a ?w"
    using assms(3) f(1,2) by (simp add: stepSample_def Let_def)
  have w: "sdFile ?w = sdFile s @ [Data (readTime ?t) ?a (unitForce ?t)]"
    "cardExists ?w" "servoPos ?w = servoPos s" "servoChecked ?w" "servoActive ?w"
    "\<not> continueFlag ?w" "scaleActive ?w = scaleActive s" "buttonReads ?w = buttonReads s"
    "servoStep ?w = servoStep s"
    using f sd assms(2) by (simp_all add: writeData_def filePrintLine_def takeSample_fileIsOpen)
  have "sdFile (advanceServo ?a ?w) = sdFile ?w \<and>
        servoPos (advanceServo ?a ?w) = int16 (servoPos ?w + servoStep ?w) \<and>
        \<not> continueFlag (advanceServo ?a ?w) \<and> scaleActive (advanceServo ?a ?w) = scaleActive ?w \<and>
        servoChecked (advanceServo ?a ?w) \<and> servoActive (advanceServo ?a ?w) \<and>
        cardExists (advanceServo ?a ?w) \<and> buttonReads (advanceServo ?a ?w) = buttonReads ?w"
    using w(2,4,5,6) by (simp add: advanceServo_def Let_def servoWrite_def)
  then show ?thesis unfolding eq using w by simp
qed

lemma loop_ends_test:
  assumes c: "cancelled True p s" and st: "\<forall>k\<ge>427. digitalRead e k = LOW"
  shows "\<exists>s'. loop e s = Some s' \<and> cancelled False p s' \<and> sdFile s' = sdFile s"
proof -
  let ?s1 = "s\<lparr>scaleActive := \<not> scaleActive s, continueFlag := True\<rparr>"
  let ?s2 = "(delay 5000 (endTest ?s1))\<lparr>continueFlag := True\<rparr>"
  let ?s3 = "delayCheckButton e 250 False ?s2"
  have i: "idleWait e s = Some s" using c by (simp add: idleWait_cancelled cancelled_def)
  have t: "toggleTest e s = Some ?s2" using c by (simp add: toggleTest_def cancelled_def Let_def)
  have f2: "continueFlag ?s2" "\<not> scaleActive ?s2" "servoChecked ?s2" "servoActive ?s2"
    "cardExists ?s2" "buttonReads ?s2 = buttonReads s" "servoPos ?s2 = servoPos s"
    "sdFile ?s2 = sdFile s"
    using c endTest_spec[of ?s1] by (simp_all add: cancelled_def delay_def)
  have l: "loop e s = Some ?s3" using f2 by (simp add: loop_def i t stepOrPoll_def)
  have "digitalRead e (buttonReads ?s2) = LOW" using st c f2 by (simp add: cancelled_def)
  then have n: "\<not> continueFlag ?s3" using f2(1) by (intro delayCheckButton_stuck) simp_all
  note sp = delayCheckButton_spec[where s="?s2" and e=e and dt=250 and full=False]
  have b: "button_only ?s2 ?s3" "buttonReads ?s2 \<le> buttonReads ?s3" using sp by simp_all
  have "cancelled False p ?s3 \<and> sdFile ?s3 = sdFile s"
    using n b f2 c unfolding cancelled_def button_only_def by simp
  then show ?thesis using l by simp
qed

lemma loop_starts_test:
  assumes c: "cancelled False p s" and st: "\<forall>k\<ge>427. digitalRead e k = LOW"
    and fo: "\<forall>k. fileOpen e k" and cs: "\<not> CONT_SYNC e"
  shows "\<exists>s' time force. loop e s = Some s' \<and> cancelled True (int16 (p + 2)) s' \<and>
           sdFile s' = butlast (sdFile s') @ [Data time (min 180 p) force]"
proof -
  let ?s1 = "s\<lparr>scaleActive := \<not> scaleActive s, continueFlag := True\<rparr>"
  let ?s0 = "?s1\<lparr>servoStep := 2\<rparr>"
  have i: "idleWait e s = Some s" using c by (simp add: idleWait_cancelled cancelled_def)
  have low: "digitalRead e (buttonReads s) = LOW" using st c by (simp add: cancelled_def)
  obtain name g where g: "getFileName e ?s0 = Some (name, g)"
    using getFileName_returns[where s="?s0" and e=e and k="buttonReads s"] low by auto
  note gs = getFileName_spec[OF g]
  let ?o = "openLog e (g\<lparr>activeFileName := name\<rparr>)"
  have o: "fileIsOpen ?o" using fo by (simp add: openLog_def)
  have sl: "startLog e ?s0 = Some (writeHeader ?o)"
    using c g o by (simp add: startLog_def cancelled_def Let_def)
  let ?h = "writeHeader ?o"
  have fh: "fileIsOpen ?h" "servoStep ?h = 2" "servoChecked ?h" "servoActive ?h" "scaleActive ?h"
    "cardExists ?h" "servoPos ?h = p" "buttonReads s \<le> buttonReads ?h"
    using gs c o by (simp_all add: writeHeader_def filePrintLine_def openLog_def kept_def cancelled_def)
  let ?d = "delay 3000 ?h"
  have sp: "startProbe e ?d = Some ?d" using fh by (simp add: startProbe_def delay_def)
  let ?s2 = "?d\<lparr>scaleStartTime := millis ?d, readTime := 0\<rparr>"
  have stt: "startTest e ?s1 = Some ?s2" by (simp add: startTest_def sl sp)
  let ?s3 = "?s2\<lparr>continueFlag := True\<rparr>"
  have t: "toggleTest e s = Some ?s3"
    using c stt by (simp add: toggleTest_def cancelled_def Let_def)
  have f3: "fileIsOpen ?s3" "servoStep ?s3 = 2" "servoChecked ?s3" "servoActive ?s3" "scaleActive ?s3"
    "cardExists ?s3" "servoPos ?s3 = p" "buttonReads s \<le> buttonReads ?s3" "continueFlag ?s3"
    using fh by (simp_all add: delay_def)
  have wr: "usub SAMPLE_MS (min 200 (usub (usub (millis ?s3) (scaleStartTime ?s3)) (readTime ?s3))) = 250"
    by (simp add: usub_def millis_def SAMPLE_MS_def)
  let ?w = "delayCheckButton e 250 True ?s3"
  have sw: "stepWait e ?s3 = ?w"
    unfolding stepWait_def wr Let_def by simp
  have l: "loop e s = Some (stepSample e ?w)"
    using f3 by (simp add: loop_def i t stepOrPoll_def stepTest_def sw)
  have "427 \<le> buttonReads ?s3" using f3(8) c by (simp add: cancelled_def)
  then have "digitalRead e (buttonReads ?s3) = LOW" using st by simp
  then have n: "\<not> continueFlag ?w" using f3(9) by (intro delayCheckButton_stuck) simp_all
  note ds = delayCheckButton_spec[where s="?s3" and e=e and dt=250 and full=True]
  have b: "button_only ?s3 ?w" "buttonReads ?s3 \<le> buttonReads ?w" using ds by simp_all
  have fw: "fileIsOpen ?w" "servoStep ?w = 2" "servoChecked ?w" "servoActive ?w" "scaleActive ?w"
    "cardExists ?w" "servoPos ?w = p" "427 \<le> buttonReads ?w"
    using b f3 c unfolding button_only_def cancelled_def by simp_all
  from stepSample_logged[OF fw(6) fw(1) cs fw(3) fw(4) n]
  obtain time force where
    r: "sdFile (stepSample e ?w) = sdFile ?w @ [Data time (min 180 (servoPos ?w)) force]"
      "servoPos (stepSample e ?w) = int16 (servoPos ?w + servoStep ?w)"
      "\<not> continueFlag (stepSample e ?w)" "scaleActive (stepSample e ?w) = scaleActive ?w"
      "servoChecked (stepSample e ?w)" "servoActive (stepSample e ?w)"
      "cardExists (stepSample e ?w)" "buttonReads (stepSample e ?w) = buttonReads ?w"
    by blast
  have "cancelled True (int16 (p + 2)) (stepSample e ?w)"
    unfolding cancelled_def using r fw by simp
  moreover have "sdFile (stepSample e ?w) =
      butlast (sdFile (stepSample e ?w)) @ [Data time (min 180 p) force]"
    using r(1) fw(7) by simp
  ultimately show ?thesis using l by blast
qed

lemma cancel_cycle:
  assumes c: "cancelled True p s" and st: "\<forall>k\<ge>427. digitalRead e k = LOW"
    and fo: "\<forall>k. fileOpen e k" and cs: "\<not> CONT_SYNC e"
  shows "\<exists>s' time force. loops e 2 s = Some s' \<and> cancelled True (int16 (p + 2)) s' \<and>
           sdFile s' = butlast (sdFile s') @ [Data time (min 180 p) force]"
proof -
  from loop_ends_test[OF c st] obtain s1 where
    s1: "loop e s = Some s1" "cancelled False p s1" by blast
  from loop_starts_test[OF s1(2) st fo cs] obtain s2 time force where
    s2: "loop e s1 = Some s2" "cancelled True (int16 (p + 2)) s2"
      "sdFile s2 = butlast (sdFile s2) @ [Data time (min 180 p) force]" by blast
  have "loops e 2 s = Some s2"
    using s1(1) s2(1) by (simp add: numeral_2_eq_2)
  then show ?thesis using s2 by blast
qed

lemma cancel_cycles:
  assumes c: "cancelled True p s" and st: "\<forall>k\<ge>427. digitalRead e k = LOW"
    and fo: "\<forall>k. fileOpen e k" and cs: "\<not> CONT_SYNC e"
    and r: "0 \<le> p" "p + 2 * int n \<le> 32766"
  shows "\<exists>s'. loops e (2 * n) s = Some s' \<and> cancelled True (p + 2 * int n) s'"
  using c r
proof (induction n arbitrary: p s)
  case 0
  then show ?case by simp
next
  case (Suc n)
  from cancel_cycle[OF Suc.prems(1) st fo cs] obtain s1 where
    s1: "loops e 2 s = Some s1" "cancelled True (int16 (p + 2)) s1" by blast
  have "int16 (p + 2) = p + 2" using Suc.prems by (intro int16_id) simp_all
  then have c1: "cancelled True (p + 2) s1" using s1(2) by simp
  have "\<exists>s'. loops e (2 * n) s1 = Some s' \<and> cancelled True (p + 2 + 2 * int n) s'"
    using Suc.prems by (intro Suc.IH[OF c1]) simp_all
  then obtain s' where s': "loops e (2 * n) s1 = Some s'" "cancelled True (p + 2 + 2 * int n) s'"
    by blast
  have "loops e (2 + 2 * n) s = Some s'"
    using s1(1) s'(1) by (simp only: loops_add) simp
  moreover have "2 + 2 * n = 2 * Suc n" by simp
  moreover have "p + 2 + 2 * int n = p + 2 * int (Suc n)" by simp
  ultimately show ?case using s'(2) by metis
qed

lemma bench_stuck_start:
  "map_option (\<lambda>s. (continueFlag s, scaleActive s, servoChecked s, servoActive s, cardExists s,
      427 \<le> buttonReads s, servoPos s)) (firmware bench_stuck 2) =
   Some (False, True, True, True, True, True, 4)"
  by code_simp

text \<open>
  C9. The claim: every data line of the log has its position field in 0..180. The sketch
  logs \<^verbatim>\<open>min(180, servoPos)\<close>, which bounds the field from above only, and \<^verbatim>\<open>endTest\<close> does
  not take \<^verbatim>\<open>servoPos\<close> back to 0 when a test is cancelled (the defect of C5), so that
  every sample of a cancelled test leaves \<^verbatim>\<open>servoPos\<close> higher by 2 for the next test. With
  the button stuck \<^verbatim>\<open>LOW\<close> the tests end and start in turn, one call of \<^verbatim>\<open>loop\<close> each, and
  every test after the first takes one sample: the 16383rd test takes \<^verbatim>\<open>servoPos\<close> from 32766 over the
  largest \<^verbatim>\<open>int\<close> of the board to \<open>- 32768\<close>, and the next test, which the 32768th call of
  \<^verbatim>\<open>loop\<close> starts, writes a data line with the position \<open>- 32768\<close>.
\<close>

theorem position_wraps_after_cancelled_tests:
  "\<exists>s rows time force. firmware bench_stuck 32768 = Some s \<and>
      sdFile s = rows @ [Data time (- 32768) force]"
proof -
  let ?e = "bench_stuck"
  have st: "\<forall>k\<ge>427. digitalRead ?e k = LOW" and fo: "\<forall>k. fileOpen ?e k" and cs: "\<not> CONT_SYNC ?e"
    by (simp_all add: bench_stuck_def bench_found_def bench_def)
  from bench_stuck_start obtain s2 where
    s2: "firmware ?e 2 = Some s2" "cancelled True 4 s2"
    by (auto simp: cancelled_def)
  have "\<exists>s'. loops ?e (2 * 16381) s2 = Some s' \<and> cancelled True (4 + 2 * int 16381) s'"
    using s2(2) st fo cs by (rule cancel_cycles) simp_all
  then obtain s3 where s3: "loops ?e 32762 s2 = Some s3" "cancelled True 32766 s3" by auto
  from cancel_cycle[OF s3(2) st fo cs] obtain s4 where
    s4: "loops ?e 2 s3 = Some s4" "cancelled True (int16 (32766 + 2)) s4" by blast
  have "int16 (32766 + 2) = - 32768" by (simp add: int16_def)
  then have c4: "cancelled True (- 32768) s4" using s4(2) by simp
  from cancel_cycle[OF c4 st fo cs] obtain s5 time force where
    s5: "loops ?e 2 s4 = Some s5"
      "sdFile s5 = butlast (sdFile s5) @ [Data time (min 180 (- 32768)) force]" by blast
  have a: "firmware ?e (2 + 32762) = Some s3"
    using s2(1) s3(1) by (simp only: firmware_add) simp
  have b: "firmware ?e (2 + 32762 + 2) = Some s4"
    using a s4(1) by (simp only: firmware_add[of _ "2 + 32762" 2]) simp
  have "firmware ?e (2 + 32762 + 2 + 2) = Some s5"
    using b s5(1) by (simp only: firmware_add[of _ "2 + 32762 + 2" 2]) simp
  then have "firmware ?e 32768 = Some s5" by simp
  moreover have "sdFile s5 = butlast (sdFile s5) @ [Data time (- 32768) force]"
    using s5(2) by simp
  ultimately show ?thesis by blast
qed

theorem position_wraps_after_cancelled_tests_witness:
  "\<exists>s. firmware bench_stuck 32768 = Some s \<and> \<not> list_all row_ok (sdFile s)"
proof -
  from position_wraps_after_cancelled_tests obtain s rows time force where
    s: "firmware bench_stuck 32768 = Some s" "sdFile s = rows @ [Data time (- 32768) force]"
    by blast
  have "\<not> row_ok (Data time (- 32768) force)" by (simp add: row_ok_def)
  then have "\<not> list_all row_ok (sdFile s)" unfolding s(2) by simp
  then show ?thesis using s(1) by blast
qed

end
